theory Spec2Isabelle
  imports Main
begin

section \<open>Deadline guardian: risk classification and cascading risks (app.py)\<close>

subsection \<open>Python values, task documents, errors\<close>

text \<open>
  A task is a document (a Python dict) read from the store. The values that the analysis
  looks at are null, strings, integers and lists; only lists are unhashable. Strings are
  lists of characters with code points below 256.
\<close>

datatype pyval = PNone | PStr string | PInt int | PList "pyval list"

text \<open>A field is \<open>None\<close> when the key is absent from the document.\<close>

record task =
  task_id :: "pyval option"
  task_name :: "pyval option"
  task_status :: "pyval option"
  task_deadline :: "pyval option"
  depends_on :: "pyval option"

text \<open>\<open>task.get(key)\<close> and \<open>task.get(key, default)\<close>.\<close>

definition get :: "pyval option \<Rightarrow> pyval" where
  "get f = (case f of None \<Rightarrow> PNone | Some v \<Rightarrow> v)"

definition get_default :: "pyval option \<Rightarrow> pyval \<Rightarrow> pyval" where
  "get_default f d = (case f of None \<Rightarrow> d | Some v \<Rightarrow> v)"

text \<open>The exceptions that escape the analysis functions. ValueError is caught inside.\<close>

datatype py_error = AttributeError | TypeError

datatype risk = COMPLETED | CRITICAL | HIGH | MEDIUM | LOW | UNKNOWN | BLOCKED

fun hashable :: "pyval \<Rightarrow> bool" where
  "hashable (PList xs) = False"
| "hashable v = True"

text \<open>Truth value of a Python object, as tested by \<open>if depends_on:\<close>.\<close>

fun truthy :: "pyval \<Rightarrow> bool" where
  "truthy PNone = False"
| "truthy (PStr s) = (s \<noteq> [])"
| "truthy (PInt i) = (i \<noteq> 0)"
| "truthy (PList xs) = (xs \<noteq> [])"

subsection \<open>String methods: lower, strip, split\<close>

text \<open>The code point of a character (\<open>ord\<close>).\<close>

definition ord_char :: "char \<Rightarrow> nat" where
  "ord_char c = of_char c"

definition lower_char :: "char \<Rightarrow> char" where
  "lower_char c =
     (if 65 \<le> ord_char c \<and> ord_char c \<le> 90 then char_of (ord_char c + 32) else c)"

text \<open>
  \<open>str.lower()\<close> on the ASCII letters. Lower-casing of other characters never produces a
  letter of \<open>done\<close> or \<open>completed\<close>, so membership in the done list is the same.
\<close>

definition lower :: "string \<Rightarrow> string" where
  "lower s = map lower_char s"

text \<open>\<open>str.isspace\<close> for one character, on code points below 256.\<close>

definition is_space :: "char \<Rightarrow> bool" where
  "is_space c =
     (let n = ord_char c
      in (9 \<le> n \<and> n \<le> 13) \<or> (28 \<le> n \<and> n \<le> 32) \<or> n = 133 \<or> n = 160)"

definition strip :: "string \<Rightarrow> string" where
  "strip s = rev (dropWhile is_space (rev (dropWhile is_space s)))"

text \<open>\<open>s.split(',')\<close>: always at least one piece.\<close>

fun split_comma :: "string \<Rightarrow> string list" where
  "split_comma [] = [[]]"
| "split_comma (c # cs) =
     (if c = CHR '','' then [] # split_comma cs
      else (case split_comma cs of
              [] \<Rightarrow> [[c]]
            | p # ps \<Rightarrow> (c # p) # ps))"

subsection \<open>Dates: \<open>datetime.strptime(s, "%Y-%m-%d")\<close> and day differences\<close>

record datetime =
  year :: int
  month :: int
  day :: int
  hour :: int
  minute :: int
  second :: int
  microsecond :: int

definition is_leap :: "int \<Rightarrow> bool" where
  "is_leap y = (y mod 4 = 0 \<and> (y mod 100 \<noteq> 0 \<or> y mod 400 = 0))"

definition days_before_year :: "int \<Rightarrow> int" where
  "days_before_year yr = (let y = yr - 1 in y * 365 + y div 4 - y div 100 + y div 400)"

definition DAYS_IN_MONTH :: "int list" where
  "DAYS_IN_MONTH = [-1, 31, 28, 31, 30, 31, 30, 31, 31, 30, 31, 30, 31]"

definition DAYS_BEFORE_MONTH :: "int list" where
  "DAYS_BEFORE_MONTH = [-1, 0, 31, 59, 90, 120, 151, 181, 212, 243, 273, 304, 334]"

definition days_in_month :: "int \<Rightarrow> int \<Rightarrow> int" where
  "days_in_month y m = (if m = 2 \<and> is_leap y then 29 else DAYS_IN_MONTH ! nat m)"

definition days_before_month :: "int \<Rightarrow> int \<Rightarrow> int" where
  "days_before_month y m = DAYS_BEFORE_MONTH ! nat m + (if m > 2 \<and> is_leap y then 1 else 0)"

definition ymd2ord :: "int \<Rightarrow> int \<Rightarrow> int \<Rightarrow> int" where
  "ymd2ord y m d = days_before_year y + days_before_month y m + d"

definition toordinal :: "datetime \<Rightarrow> int" where
  "toordinal t = ymd2ord (year t) (month t) (day t)"

text \<open>The date check of the datetime constructor; a failure is a ValueError.\<close>

definition check_date_fields :: "int \<Rightarrow> int \<Rightarrow> int \<Rightarrow> bool" where
  "check_date_fields y m d =
     (1 \<le> y \<and> y \<le> 9999 \<and> 1 \<le> m \<and> m \<le> 12 \<and> 1 \<le> d \<and> d \<le> days_in_month y m)"

definition is_digit :: "char \<Rightarrow> bool" where
  "is_digit c = (48 \<le> ord_char c \<and> ord_char c \<le> 57)"

definition digit_val :: "char \<Rightarrow> int" where
  "digit_val c = int (ord_char c) - 48"

definition in_range :: "char \<Rightarrow> char \<Rightarrow> char \<Rightarrow> bool" where
  "in_range lo hi c = (ord_char lo \<le> ord_char c \<and> ord_char c \<le> ord_char hi)"

text \<open>
  The regular expression that the format compiles to is
  \<^verbatim>\<open>(?P<Y>\d\d\d\d)-(?P<m>1[0-2]|0[1-9]|[1-9])-(?P<d>3[0-1]|[1-2]\d|0[1-9]|[1-9]| [1-9])\<close>.
  Each group is modelled by the list of its matches at the start of the input, in the
  order of its alternatives, each with the value read and the rest of the input.
\<close>

fun match_Y :: "string \<Rightarrow> (int \<times> string) list" where
  "match_Y (a # b # c # d # rest) =
     (if is_digit a \<and> is_digit b \<and> is_digit c \<and> is_digit d
      then [(1000 * digit_val a + 100 * digit_val b + 10 * digit_val c + digit_val d, rest)]
      else [])"
| "match_Y s = []"

definition match_m :: "string \<Rightarrow> (int \<times> string) list" where
  "match_m s =
     (case s of
        a # b # rest \<Rightarrow>
          (if a = CHR ''1'' \<and> in_range (CHR ''0'') (CHR ''2'') b
           then [(10 + digit_val b, rest)] else [])
          @ (if a = CHR ''0'' \<and> in_range (CHR ''1'') (CHR ''9'') b
             then [(digit_val b, rest)] else [])
      | _ \<Rightarrow> [])
     @ (case s of
          a # rest \<Rightarrow> (if in_range (CHR ''1'') (CHR ''9'') a then [(digit_val a, rest)] else [])
        | _ \<Rightarrow> [])"

definition match_d :: "string \<Rightarrow> (int \<times> string) list" where
  "match_d s =
     (case s of
        a # b # rest \<Rightarrow>
          (if a = CHR ''3'' \<and> in_range (CHR ''0'') (CHR ''1'') b
           then [(30 + digit_val b, rest)] else [])
          @ (if in_range (CHR ''1'') (CHR ''2'') a \<and> is_digit b
             then [(10 * digit_val a + digit_val b, rest)] else [])
          @ (if a = CHR ''0'' \<and> in_range (CHR ''1'') (CHR ''9'') b
             then [(digit_val b, rest)] else [])
      | _ \<Rightarrow> [])
     @ (case s of
          a # rest \<Rightarrow> (if in_range (CHR ''1'') (CHR ''9'') a then [(digit_val a, rest)] else [])
        | _ \<Rightarrow> [])
     @ (case s of
          a # b # rest \<Rightarrow>
            (if a = CHR '' '' \<and> in_range (CHR ''1'') (CHR ''9'') b
             then [(digit_val b, rest)] else [])
        | _ \<Rightarrow> [])"

definition match_dash :: "string \<Rightarrow> string list" where
  "match_dash s = (case s of c # rest \<Rightarrow> (if c = CHR ''-'' then [rest] else []) | [] \<Rightarrow> [])"

text \<open>
  All matches of the whole pattern at the start of the input, in the order in which a
  backtracking matcher finds them; \<open>re.match\<close> returns the first.
\<close>

definition regex_matches :: "string \<Rightarrow> ((int \<times> int \<times> int) \<times> string) list" where
  "regex_matches s =
     concat (map (\<lambda>(y, r1).
       concat (map (\<lambda>r2.
         concat (map (\<lambda>(m, r3).
           concat (map (\<lambda>r4.
             map (\<lambda>(d, r5). ((y, m, d), r5)) (match_d r4))
           (match_dash r3)))
         (match_m r2)))
       (match_dash r1)))
     (match_Y s))"

text \<open>
  \<open>strptime\<close> on a string: \<open>None\<close> stands for ValueError (no match, unconverted data
  after the first match, or a date that the constructor refuses).
\<close>

definition strptime :: "string \<Rightarrow> datetime option" where
  "strptime s =
     (case regex_matches s of
        [] \<Rightarrow> None
      | ((y, m, d), rest) # _ \<Rightarrow>
          if rest \<noteq> [] then None
          else if \<not> check_date_fields y m d then None
          else Some \<lparr>year = y, month = m, day = d, hour = 0, minute = 0, second = 0,
                     microsecond = 0\<rparr>)"

text \<open>
  \<open>(deadline - now).days\<close>: the difference is normalised so that the seconds and
  microseconds are non-negative, which makes the day count the floor.
\<close>

definition day_seconds :: "datetime \<Rightarrow> int" where
  "day_seconds t = second t + minute t * 60 + hour t * 3600"

definition sub_days :: "datetime \<Rightarrow> datetime \<Rightarrow> int" where
  "sub_days a b =
     (toordinal a - toordinal b)
     + ((day_seconds a - day_seconds b) * 1000000 + (microsecond a - microsecond b))
       div 86400000000"

subsection \<open>calculate_risk_level\<close>

text \<open>
  The reading of the clock is a parameter, held fixed over one analysis.
\<close>

definition calculate_risk_level :: "datetime \<Rightarrow> pyval \<Rightarrow> pyval \<Rightarrow> py_error + (risk \<times> int)" where
  "calculate_risk_level now deadline_str status =
     (case status of
        PStr st \<Rightarrow>
          if lower st \<in> set [''done'', ''completed''] then Inr (COMPLETED, 0)
          else (case deadline_str of
                  PStr dl \<Rightarrow>
                    (case strptime dl of
                       None \<Rightarrow> Inr (UNKNOWN, 0)
                     | Some deadline \<Rightarrow>
                         (let days_remaining = sub_days deadline now
                          in if days_remaining < 0 then Inr (CRITICAL, days_remaining)
                             else if days_remaining < 1 then Inr (HIGH, days_remaining)
                             else if days_remaining < 3 then Inr (MEDIUM, days_remaining)
                             else Inr (LOW, days_remaining)))
                | _ \<Rightarrow> Inl TypeError)
      | _ \<Rightarrow> Inl AttributeError)"

subsection \<open>format_time_remaining\<close>

fun str_nat :: "nat \<Rightarrow> string" where
  "str_nat n =
     (if n < 10 then [char_of (48 + n)]
      else str_nat (n div 10) @ [char_of (48 + n mod 10)])"

definition format_time_remaining :: "int \<Rightarrow> string" where
  "format_time_remaining days =
     (if days < 0 then ''OVERDUE by '' @ str_nat (nat (abs days)) @ '' day(s)''
      else if days = 0 then ''Due TODAY''
      else str_nat (nat days) @ '' day(s)'')"

subsection \<open>Dictionaries\<close>

text \<open>
  A dict is an association list with distinct keys in insertion order: assigning to a key
  that is present replaces its value in place, a new key goes to the end.
\<close>

fun dict_set :: "('k \<times> 'v) list \<Rightarrow> 'k \<Rightarrow> 'v \<Rightarrow> ('k \<times> 'v) list" where
  "dict_set [] k v = [(k, v)]"
| "dict_set ((k', v') # d) k v =
     (if k' = k then (k', v) # d else (k', v') # dict_set d k v)"

definition dict_get :: "('k \<times> 'v) list \<Rightarrow> 'k \<Rightarrow> 'v option" where
  "dict_get d k = map_of d k"

type_synonym graph = "(pyval \<times> pyval list) list"
type_synonym status_map = "(pyval \<times> pyval) list"
type_synonym risk_map = "(pyval \<times> risk) list"

subsection \<open>build_dependency_graph\<close>

text \<open>
  The list of declared predecessors:
  \<^verbatim>\<open>[d.strip() for d in depends_on.split(',')] if isinstance(depends_on, str) else [depends_on]\<close>.
\<close>

definition parse_deps :: "pyval \<Rightarrow> pyval list" where
  "parse_deps dep =
     (case dep of
        PStr s \<Rightarrow> map (\<lambda>d. PStr (strip d)) (split_comma s)
      | _ \<Rightarrow> [dep])"

text \<open>
  The intrinsic risk of a task, as both \<open>build_dependency_graph\<close> and \<open>handle_request\<close>
  ask for it: absent deadline and status default to the empty string.
\<close>

definition task_risk :: "datetime \<Rightarrow> task \<Rightarrow> py_error + (risk \<times> int)" where
  "task_risk now t =
     calculate_risk_level now
       (get_default (task_deadline t) (PStr []))
       (get_default (task_status t) (PStr []))"

text \<open>
  First loop: one entry per task in each of the three dicts. An unhashable \<open>task_id\<close>
  raises TypeError at \<open>graph[t_id] = []\<close>.
\<close>

fun init_maps ::
  "datetime \<Rightarrow> task list \<Rightarrow> graph \<times> status_map \<times> risk_map
     \<Rightarrow> py_error + (graph \<times> status_map \<times> risk_map)" where
  "init_maps now [] acc = Inr acc"
| "init_maps now (t # ts) (graph, status_map, risk_map) =
     (let t_id = get (task_id t)
      in if \<not> hashable t_id then Inl TypeError
         else (case task_risk now t of
                 Inl e \<Rightarrow> Inl e
               | Inr (r, _) \<Rightarrow>
                   init_maps now ts
                     (dict_set graph t_id [],
                      dict_set status_map t_id (get_default (task_status t) (PStr ''todo'')),
                      dict_set risk_map t_id r)))"

text \<open>
  Inner loop of the second pass: \<open>if dep_id in graph: graph[dep_id].append(t_id)\<close>.
  The membership test hashes \<open>dep_id\<close>, so a list raises TypeError.
\<close>

fun add_edges :: "pyval \<Rightarrow> pyval list \<Rightarrow> graph \<Rightarrow> py_error + graph" where
  "add_edges t_id [] graph = Inr graph"
| "add_edges t_id (dep_id # deps) graph =
     (if \<not> hashable dep_id then Inl TypeError
      else (case dict_get graph dep_id of
              None \<Rightarrow> add_edges t_id deps graph
            | Some dependents \<Rightarrow>
                add_edges t_id deps (dict_set graph dep_id (dependents @ [t_id]))))"

fun populate :: "task list \<Rightarrow> graph \<Rightarrow> py_error + graph" where
  "populate [] graph = Inr graph"
| "populate (t # ts) graph =
     (let t_id = get (task_id t); dep = get (depends_on t)
      in if truthy dep
         then (case add_edges t_id (parse_deps dep) graph of
                 Inl e \<Rightarrow> Inl e
               | Inr graph' \<Rightarrow> populate ts graph')
         else populate ts graph)"

definition build_dependency_graph ::
  "datetime \<Rightarrow> task list \<Rightarrow> py_error + (graph \<times> status_map \<times> risk_map)" where
  "build_dependency_graph now tasks =
     (case init_maps now tasks ([], [], []) of
        Inl e \<Rightarrow> Inl e
      | Inr (graph, status_map, risk_map) \<Rightarrow>
          (case populate tasks graph of
             Inl e \<Rightarrow> Inl e
           | Inr graph' \<Rightarrow> Inr (graph', status_map, risk_map)))"

subsection \<open>analyze_cascading_risks\<close>

text \<open>
  The blocked set is kept as a list without repetitions; Python leaves the order of
  \<open>list(blocked_tasks)\<close> open, and only membership and length are used afterwards.
\<close>

definition set_add :: "'a list \<Rightarrow> 'a \<Rightarrow> 'a list" where
  "set_add xs x = (if x \<in> set xs then xs else xs @ [x])"

fun block_deps :: "pyval \<Rightarrow> pyval list \<Rightarrow> risk_map \<Rightarrow> pyval list \<Rightarrow> py_error + pyval list" where
  "block_deps t_id [] risk_map blocked_tasks = Inr blocked_tasks"
| "block_deps t_id (dep_id # deps) risk_map blocked_tasks =
     (if \<not> hashable dep_id then Inl TypeError
      else (let dep_risk = dict_get risk_map dep_id
            in if dep_risk \<in> set [Some CRITICAL, Some HIGH]
               then (if \<not> hashable t_id then Inl TypeError
                     else block_deps t_id deps risk_map (set_add blocked_tasks t_id))
               else block_deps t_id deps risk_map blocked_tasks))"

fun identify_blocked :: "task list \<Rightarrow> risk_map \<Rightarrow> pyval list \<Rightarrow> py_error + pyval list" where
  "identify_blocked [] risk_map blocked_tasks = Inr blocked_tasks"
| "identify_blocked (t # ts) risk_map blocked_tasks =
     (let t_id = get (task_id t); dep = get (depends_on t)
      in if truthy dep
         then (case block_deps t_id (parse_deps dep) risk_map blocked_tasks of
                 Inl e \<Rightarrow> Inl e
               | Inr blocked_tasks' \<Rightarrow> identify_blocked ts risk_map blocked_tasks')
         else identify_blocked ts risk_map blocked_tasks)"

definition identify_bottlenecks :: "graph \<Rightarrow> pyval list" where
  "identify_bottlenecks graph =
     map fst (filter (\<lambda>(t_id, dependents). length dependents > 1) graph)"

definition analyze_cascading_risks ::
  "datetime \<Rightarrow> task list \<Rightarrow> py_error + (pyval list \<times> pyval list)" where
  "analyze_cascading_risks now tasks =
     (case build_dependency_graph now tasks of
        Inl e \<Rightarrow> Inl e
      | Inr (graph, status_map, risk_map) \<Rightarrow>
          (case identify_blocked tasks risk_map [] of
             Inl e \<Rightarrow> Inl e
           | Inr blocked_tasks \<Rightarrow> Inr (blocked_tasks, identify_bottlenecks graph)))"

subsection \<open>The deterministic analysis of handle_request\<close>

record analyzed_task =
  a_id :: pyval
  a_name :: pyval
  a_deadline :: pyval
  a_risk :: risk
  a_days_remaining :: int
  a_time_text :: string
  a_is_bottleneck :: bool

text \<open>The override of one task's tier: \<open>if t_id in blocked_tasks and risk not in [...]\<close>.\<close>

definition override_risk :: "pyval list \<Rightarrow> pyval \<Rightarrow> risk \<Rightarrow> risk" where
  "override_risk blocked_tasks t_id r =
     (if t_id \<in> set blocked_tasks \<and> r \<notin> set [CRITICAL, COMPLETED] then BLOCKED else r)"

fun analyze_tasks ::
  "datetime \<Rightarrow> pyval list \<Rightarrow> pyval list \<Rightarrow> task list
     \<Rightarrow> (risk \<Rightarrow> nat) \<times> analyzed_task list
     \<Rightarrow> py_error + ((risk \<Rightarrow> nat) \<times> analyzed_task list)" where
  "analyze_tasks now blocked_tasks bottlenecks [] acc = Inr acc"
| "analyze_tasks now blocked_tasks bottlenecks (t # ts) (counts, analyzed_tasks) =
     (let t_id = get (task_id t)
      in case task_risk now t of
           Inl e \<Rightarrow> Inl e
         | Inr (r, days) \<Rightarrow>
             (let r' = override_risk blocked_tasks t_id r
              in analyze_tasks now blocked_tasks bottlenecks ts
                   (counts(r' := counts r' + 1),
                    analyzed_tasks @
                      [\<lparr>a_id = t_id, a_name = get (task_name t),
                        a_deadline = get (task_deadline t), a_risk = r',
                        a_days_remaining = days,
                        a_time_text = format_time_remaining days,
                        a_is_bottleneck = (t_id \<in> set bottlenecks)\<rparr>])))"

record analysis_result =
  blocked_task_ids :: "pyval list"
  bottleneck_task_ids :: "pyval list"
  risk_counts :: "risk \<Rightarrow> nat"
  analyzed :: "analyzed_task list"

text \<open>
  Steps 1 and 2 of the \<open>try\<close> block of \<open>handle_request\<close>. An exception (\<open>Inl\<close>) is what
  the handler answers with a \<open>processing_error\<close>.
\<close>

definition handle_analysis :: "datetime \<Rightarrow> task list \<Rightarrow> py_error + analysis_result" where
  "handle_analysis now tasks =
     (case analyze_cascading_risks now tasks of
        Inl e \<Rightarrow> Inl e
      | Inr (blocked_tasks, bottlenecks) \<Rightarrow>
          (case analyze_tasks now blocked_tasks bottlenecks tasks (\<lambda>_. 0, []) of
             Inl e \<Rightarrow> Inl e
           | Inr (counts, analyzed_tasks) \<Rightarrow>
               Inr \<lparr>blocked_task_ids = blocked_tasks, bottleneck_task_ids = bottlenecks,
                    risk_counts = counts, analyzed = analyzed_tasks\<rparr>))"

subsection \<open>Notions used in the statements\<close>

text \<open>The range check of the datetime constructor on the time fields.\<close>

definition valid_time :: "datetime \<Rightarrow> bool" where
  "valid_time t =
     (0 \<le> hour t \<and> hour t < 24 \<and> 0 \<le> minute t \<and> minute t < 60 \<and>
      0 \<le> second t \<and> second t < 60 \<and> 0 \<le> microsecond t \<and> microsecond t < 1000000)"

text \<open>
  The shape \<open>YYYY-MM-DD\<close> read to the letter, as the specification words it: four digits,
  a dash, two digits, a dash, two digits, and nothing else.
\<close>

definition strict_ymd :: "string \<Rightarrow> bool" where
  "strict_ymd s =
     (length s = 10 \<and> list_all is_digit (take 4 s) \<and> s ! 4 = CHR ''-'' \<and>
      list_all is_digit (take 2 (drop 5 s)) \<and> s ! 7 = CHR ''-'' \<and>
      list_all is_digit (drop 8 s))"

text \<open>The predecessors that a task declares; none when \<open>depends_on\<close> is falsy.\<close>

definition task_deps :: "task \<Rightarrow> pyval list" where
  "task_deps t = (if truthy (get (depends_on t)) then parse_deps (get (depends_on t)) else [])"

text \<open>
  The dependents of \<open>k\<close> as the declarations give them: each task, in input order, once
  for every time it names \<open>k\<close>.
\<close>

definition dependents_of :: "task list \<Rightarrow> pyval \<Rightarrow> pyval list" where
  "dependents_of ts k =
     concat (map (\<lambda>t. replicate (count_list (task_deps t) k) (get (task_id t))) ts)"

fun is_str :: "pyval \<Rightarrow> bool" where
  "is_str (PStr s) = True"
| "is_str v = False"

text \<open>
  A task whose fields have the types the code handles: a hashable id, status and deadline
  absent or strings, and a \<open>depends_on\<close> that is absent, falsy, a string, or another
  hashable value.
\<close>

definition plain_task :: "task \<Rightarrow> bool" where
  "plain_task t =
     (hashable (get (task_id t)) \<and>
      is_str (get_default (task_status t) (PStr [])) \<and>
      is_str (get_default (task_deadline t) (PStr [])) \<and>
      (truthy (get (depends_on t)) \<longrightarrow> hashable (get (depends_on t))))"

text \<open>A declared predecessor that the risk map holds as CRITICAL or HIGH.\<close>

definition risky :: "risk_map \<Rightarrow> pyval \<Rightarrow> bool" where
  "risky rm d = (map_of rm d = Some CRITICAL \<or> map_of rm d = Some HIGH)"

text \<open>A task whose own classification is CRITICAL or HIGH.\<close>

definition at_risk :: "datetime \<Rightarrow> task \<Rightarrow> bool" where
  "at_risk now t =
     (case task_risk now t of
        Inl e \<Rightarrow> False
      | Inr (r, n) \<Rightarrow> r = CRITICAL \<or> r = HIGH)"

text \<open>
  The deadline texts that the parse accepts, described on their own: a year of four
  digits, a dash, a month, a dash and a day. The month is written \<open>1\<close> to \<open>9\<close>, \<open>01\<close> to
  \<open>09\<close> or \<open>10\<close> to \<open>12\<close>; the day \<open>1\<close> to \<open>9\<close>, \<open>01\<close> to \<open>09\<close>, \<open>10\<close> to \<open>31\<close>, or a
  blank and \<open>1\<close> to \<open>9\<close>. \<open>text_value\<close> is the number written, a leading blank ignored.
\<close>

definition month_text :: "string \<Rightarrow> bool" where
  "month_text ms =
     (case ms of
        [a] \<Rightarrow> in_range (CHR ''1'') (CHR ''9'') a
      | [a, b] \<Rightarrow> (a = CHR ''1'' \<and> in_range (CHR ''0'') (CHR ''2'') b)
                 \<or> (a = CHR ''0'' \<and> in_range (CHR ''1'') (CHR ''9'') b)
      | _ \<Rightarrow> False)"

definition day_text :: "string \<Rightarrow> bool" where
  "day_text ds =
     (case ds of
        [a] \<Rightarrow> in_range (CHR ''1'') (CHR ''9'') a
      | [a, b] \<Rightarrow> (a = CHR ''3'' \<and> in_range (CHR ''0'') (CHR ''1'') b)
                 \<or> (in_range (CHR ''1'') (CHR ''2'') a \<and> is_digit b)
                 \<or> (a = CHR ''0'' \<and> in_range (CHR ''1'') (CHR ''9'') b)
                 \<or> (a = CHR '' '' \<and> in_range (CHR ''1'') (CHR ''9'') b)
      | _ \<Rightarrow> False)"

definition text_value :: "string \<Rightarrow> int" where
  "text_value s =
     foldl (\<lambda>n c. 10 * n + digit_val c) 0 (dropWhile (\<lambda>c. c = CHR '' '') s)"

definition reads_as :: "string \<Rightarrow> int \<Rightarrow> int \<Rightarrow> int \<Rightarrow> bool" where
  "reads_as s y m d =
     (\<exists>ys ms ds. s = ys @ CHR ''-'' # ms @ CHR ''-'' # ds
        \<and> length ys = 4 \<and> list_all is_digit ys \<and> month_text ms \<and> day_text ds
        \<and> y = text_value ys \<and> m = text_value ms \<and> d = text_value ds)"

text \<open>
  The deadline of a task parses and lies at least one whole day after the clock reading:
  the day count is at least 1.
\<close>

definition day_ahead :: "datetime \<Rightarrow> task \<Rightarrow> bool" where
  "day_ahead now t =
     (case get_default (task_deadline t) (PStr []) of
        PStr dl \<Rightarrow> (case strptime dl of
                      Some d \<Rightarrow> 1 \<le> sub_days d now
                    | None \<Rightarrow> False)
      | _ \<Rightarrow> False)"

text \<open>The status of a task, absent read as empty, is a done synonym.\<close>

definition done_status :: "task \<Rightarrow> bool" where
  "done_status t =
     (case get_default (task_status t) (PStr []) of
        PStr st \<Rightarrow> lower st \<in> set [''done'', ''completed'']
      | _ \<Rightarrow> False)"

text \<open>\<open>",".join(ps)\<close>, to describe a comma-separated declaration by its pieces.\<close>

fun join_comma :: "string list \<Rightarrow> string" where
  "join_comma [] = []"
| "join_comma [p] = p"
| "join_comma (p # q # ps) = p @ CHR '','' # join_comma (q # ps)"

subsection \<open>Sample inputs\<close>

definition sample_now :: datetime where
  "sample_now = \<lparr>year = 2025, month = 6, day = 15, hour = 12, minute = 30, second = 0,
                  microsecond = 0\<rparr>"

definition todo_task :: "string \<Rightarrow> string \<Rightarrow> pyval option \<Rightarrow> task" where
  "todo_task i dl dep =
     \<lparr>task_id = Some (PStr i), task_name = None, task_status = Some (PStr ''todo''),
      task_deadline = Some (PStr dl), depends_on = dep\<rparr>"

text \<open>An overdue task with two dependents, and a task two hops behind it.\<close>

definition fan_out_tasks :: "task list" where
  "fan_out_tasks =
     [todo_task ''A'' ''2020-01-01'' None,
      todo_task ''B'' ''2099-01-01'' (Some (PStr ''A'')),
      todo_task ''C'' ''2099-01-01'' (Some (PStr ''A'')),
      todo_task ''D'' ''2099-01-01'' (Some (PStr ''B''))]"

definition cyclic_tasks :: "task list" where
  "cyclic_tasks =
     [todo_task ''A'' ''2025-06-17'' (Some (PStr ''B'')),
      todo_task ''B'' ''2025-06-17'' (Some (PStr ''A''))]"

text \<open>The same pair with deadlines on the day after the sample clock's date.\<close>

definition cyclic_tomorrow_tasks :: "task list" where
  "cyclic_tomorrow_tasks =
     [todo_task ''A'' ''2025-06-16'' (Some (PStr ''B'')),
      todo_task ''B'' ''2025-06-16'' (Some (PStr ''A''))]"

text \<open>A task that names two predecessors in one string, and a task behind it.\<close>

definition mixed_deps_tasks :: "task list" where
  "mixed_deps_tasks =
     [todo_task ''A'' ''2020-01-01'' None,
      todo_task ''B'' ''2099-01-01'' None,
      todo_task ''E'' ''2099-01-01'' (Some (PStr ''B, A'')),
      todo_task ''F'' ''2099-01-01'' (Some (PStr ''E''))]"

definition declared_twice_tasks :: "task list" where
  "declared_twice_tasks =
     [todo_task ''A'' ''2099-01-01'' (Some PNone),
      todo_task ''B'' ''2099-01-01'' (Some (PStr ''A, A''))]"

definition string_deps_tasks :: "task list" where
  "string_deps_tasks =
     [todo_task ''X'' ''2099-01-01'' (Some PNone),
      todo_task ''Y'' ''2099-01-01'' (Some PNone),
      todo_task ''Z'' ''2099-01-01'' (Some (PStr ''X, Y''))]"

definition list_deps_tasks :: "task list" where
  "list_deps_tasks =
     [todo_task ''X'' ''2099-01-01'' (Some PNone),
      todo_task ''Y'' ''2099-01-01'' (Some PNone),
      todo_task ''Z'' ''2099-01-01'' (Some (PList [PStr ''X'', PStr ''Y'']))]"

text \<open>A document with no field at all, and one whose status is null.\<close>

definition empty_task :: task where
  "empty_task =
     \<lparr>task_id = None, task_name = None, task_status = None, task_deadline = None,
      depends_on = None\<rparr>"

definition null_status_task :: task where
  "null_status_task =
     \<lparr>task_id = Some (PStr ''T''), task_name = None, task_status = Some PNone,
      task_deadline = Some (PStr ''2099-01-01''), depends_on = None\<rparr>"

section \<open>Properties\<close>

subsection \<open>The classifier\<close>

lemma strptime_midnight:
  "strptime s = Some d \<Longrightarrow> hour d = 0 \<and> minute d = 0 \<and> second d = 0 \<and> microsecond d = 0"
  by (auto simp: strptime_def split: list.splits prod.splits if_splits)

lemma sub_days_past:
  assumes "valid_time now" "hour d = 0" "minute d = 0" "second d = 0" "microsecond d = 0"
  shows "sub_days d now \<le> toordinal d - toordinal now"
proof -
  let ?x = "day_seconds now * 1000000 + microsecond now"
  have "0 \<le> ?x"
    using assms(1) by (simp add: valid_time_def day_seconds_def)
  then have "(- ?x) div 86400000000 \<le> 0"
    by (intro div_nonpos_pos_le0) simp_all
  then show ?thesis
    using assms(2-5) by (simp add: sub_days_def day_seconds_def)
qed

text \<open>
  C5. For a status that is not a done synonym and a deadline that parses, the tier is read
  off the day count by the tests \<open>< 0\<close>, \<open>< 1\<close>, \<open>< 3\<close> in this order, and the day count
  is returned with it. When the deadline is the day before the clock's date, the day
  count is negative and the tier is CRITICAL.
\<close>

theorem classify_thresholds:
  assumes "lower st \<notin> set [''done'', ''completed'']" and "strptime dl = Some d"
  shows "calculate_risk_level now (PStr dl) (PStr st)
           = Inr (if sub_days d now < 0 then CRITICAL
                  else if sub_days d now < 1 then HIGH
                  else if sub_days d now < 3 then MEDIUM
                  else LOW,
                  sub_days d now)
         \<and> (valid_time now \<and> toordinal d = toordinal now - 1 \<longrightarrow>
              sub_days d now < 0
              \<and> calculate_risk_level now (PStr dl) (PStr st) = Inr (CRITICAL, sub_days d now))"
proof -
  have 1: "calculate_risk_level now (PStr dl) (PStr st)
           = Inr (if sub_days d now < 0 then CRITICAL
                  else if sub_days d now < 1 then HIGH
                  else if sub_days d now < 3 then MEDIUM
                  else LOW,
                  sub_days d now)"
    using assms by (simp add: calculate_risk_level_def Let_def)
  have 2: "sub_days d now < 0" if "valid_time now" "toordinal d = toordinal now - 1"
    using sub_days_past[of now d] strptime_midnight[OF assms(2)] that by simp
  show ?thesis using 1 2 by auto
qed

theorem classify_thresholds_witness:
  "lower ''todo'' \<notin> set [''done'', ''completed'']
   \<and> strptime ''2025-06-14''
       = Some \<lparr>year = 2025, month = 6, day = 14, hour = 0, minute = 0, second = 0,
                microsecond = 0\<rparr>
   \<and> valid_time \<lparr>year = 2025, month = 6, day = 15, hour = 12, minute = 30, second = 0,
                  microsecond = 0\<rparr>
   \<and> calculate_risk_level
         \<lparr>year = 2025, month = 6, day = 15, hour = 12, minute = 30, second = 0,
           microsecond = 0\<rparr>
         (PStr ''2025-06-14'') (PStr ''todo'') = Inr (CRITICAL, -2)"
proof -
  let ?now = "\<lparr>year = 2025, month = 6, day = 15, hour = 12, minute = 30, second = 0,
               microsecond = 0\<rparr>"
  let ?d = "\<lparr>year = 2025, month = 6, day = 14, hour = 0, minute = 0, second = 0,
             microsecond = 0\<rparr>"
  have a: "lower ''todo'' \<notin> set [''done'', ''completed'']" by code_simp
  have b: "strptime ''2025-06-14'' = Some ?d" by code_simp
  have c: "valid_time ?now" by code_simp
  have e: "toordinal ?d = toordinal ?now - 1" by code_simp
  have f: "sub_days ?d ?now = -2" by code_simp
  show ?thesis
    using classify_thresholds[OF a b, of ?now] a b c e f by simp
qed

text \<open>
  C6. A status that equals \<open>done\<close> or \<open>completed\<close> up to letter case gives
  \<open>(COMPLETED, 0)\<close> whatever the deadline argument is: a valid date, an empty or malformed
  string, or no string at all.
\<close>

theorem done_status_completed:
  assumes "lower st = ''done'' \<or> lower st = ''completed''"
  shows "calculate_risk_level now dl (PStr st) = Inr (COMPLETED, 0)"
  using assms by (auto simp: calculate_risk_level_def)

theorem done_status_completed_witness:
  "(lower ''DoNe'' = ''done'' \<or> lower ''DoNe'' = ''completed'')
   \<and> calculate_risk_level
         \<lparr>year = 2025, month = 6, day = 15, hour = 12, minute = 30, second = 0,
           microsecond = 0\<rparr>
         (PStr ''not-a-date'') (PStr ''DoNe'') = Inr (COMPLETED, 0)"
proof -
  have a: "lower ''DoNe'' = ''done'' \<or> lower ''DoNe'' = ''completed''" by code_simp
  show ?thesis
    using done_status_completed[OF a] a by simp
qed

text \<open>
  C7, as stated, fails: the string \<open>2020-1-5\<close> is not of the shape \<open>YYYY-MM-DD\<close>, yet
  the parse accepts it and the task is classified by its date.
\<close>

theorem lenient_parse_counterexample:
  "\<not> strict_ymd ''2020-1-5''
   \<and> lower ''todo'' \<notin> set [''done'', ''completed'']
   \<and> calculate_risk_level
         \<lparr>year = 2025, month = 6, day = 15, hour = 12, minute = 30, second = 0,
           microsecond = 0\<rparr>
         (PStr ''2020-1-5'') (PStr ''todo'') = Inr (CRITICAL, -1989)"
  by code_simp

text \<open>What \<open>strptime\<close> accepts, against the description by \<open>reads_as\<close>.\<close>

lemma ord_lits:
  "ord_char (CHR ''0'') = 48" "ord_char (CHR ''1'') = 49" "ord_char (CHR ''2'') = 50"
  "ord_char (CHR ''3'') = 51" "ord_char (CHR ''9'') = 57" "ord_char (CHR '' '') = 32"
  "ord_char (CHR ''-'') = 45"
  by (simp_all add: ord_char_def)

lemma ord_char_eq: "ord_char a = ord_char b \<longleftrightarrow> a = b"
  by (simp add: ord_char_def)

lemma match_Y_shape:
  "(y, r) \<in> set (match_Y s) \<Longrightarrow>
     \<exists>ys. s = ys @ r \<and> length ys = 4 \<and> list_all is_digit ys \<and> y = text_value ys"
proof (induction s rule: match_Y.induct)
  case (1 a b c d rest)
  then have dg: "is_digit a" "is_digit b" "is_digit c" "is_digit d" and r: "r = rest"
    and y: "y = 1000 * digit_val a + 100 * digit_val b + 10 * digit_val c + digit_val d"
    by (auto split: if_splits)
  have "a \<noteq> CHR '' ''" using dg(1) by (auto simp: is_digit_def ord_lits)
  then have "text_value [a, b, c, d] = y"
    by (simp add: text_value_def y)
  with dg r show ?case
    by (intro exI[of _ "[a, b, c, d]"]) simp
qed simp_all


lemma match_dash_shape: "r \<in> set (match_dash s) \<Longrightarrow> s = CHR ''-'' # r"
  by (auto simp: match_dash_def split: list.splits if_splits)

lemma digit_lits:
  "digit_val (CHR ''0'') = 0" "digit_val (CHR ''1'') = 1" "digit_val (CHR ''3'') = 3"
  by (simp_all add: digit_val_def ord_char_def)

lemma not_blank:
  "in_range (CHR ''1'') (CHR ''9'') a \<Longrightarrow> a \<noteq> CHR '' ''"
  "in_range (CHR ''1'') (CHR ''2'') a \<Longrightarrow> a \<noteq> CHR '' ''"
  "is_digit a \<Longrightarrow> a \<noteq> CHR '' ''"
  by (auto simp: in_range_def is_digit_def ord_lits)

lemma text_value_one: "a \<noteq> CHR '' '' \<Longrightarrow> text_value [a] = digit_val a"
  by (simp add: text_value_def)

lemma text_value_two: "a \<noteq> CHR '' '' \<Longrightarrow> text_value [a, b] = 10 * digit_val a + digit_val b"
  by (simp add: text_value_def)

lemma text_value_blank: "b \<noteq> CHR '' '' \<Longrightarrow> text_value [CHR '' '', b] = digit_val b"
  by (simp add: text_value_def)

lemma match_m_shape:
  "(m, r) \<in> set (match_m s) \<Longrightarrow> \<exists>ms. s = ms @ r \<and> month_text ms \<and> m = text_value ms"
proof -
  assume a: "(m, r) \<in> set (match_m s)"
  then consider
    (two1) b where "s = CHR ''1'' # b # r" "in_range (CHR ''0'') (CHR ''2'') b" "m = 10 + digit_val b"
  | (two0) b where "s = CHR ''0'' # b # r" "in_range (CHR ''1'') (CHR ''9'') b" "m = digit_val b"
  | (one) c where "s = c # r" "in_range (CHR ''1'') (CHR ''9'') c" "m = digit_val c"
    by (auto simp: match_m_def split: list.splits if_splits)
  then show ?thesis
  proof cases
    case two1
    then show ?thesis
      by (intro exI[of _ "[CHR ''1'', b]"])
         (simp add: month_text_def text_value_two digit_lits)
  next
    case two0
    then show ?thesis
      by (intro exI[of _ "[CHR ''0'', b]"])
         (simp add: month_text_def text_value_two digit_lits)
  next
    case one
    then show ?thesis
      by (intro exI[of _ "[c]"]) (simp add: month_text_def text_value_one not_blank)
  qed
qed

lemma match_d_shape:
  "(d, r) \<in> set (match_d s) \<Longrightarrow> \<exists>ds. s = ds @ r \<and> day_text ds \<and> d = text_value ds"
proof -
  assume a: "(d, r) \<in> set (match_d s)"
  then consider
    (two3) b where "s = CHR ''3'' # b # r" "in_range (CHR ''0'') (CHR ''1'') b" "d = 30 + digit_val b"
  | (two12) a b where "s = a # b # r" "in_range (CHR ''1'') (CHR ''2'') a" "is_digit b"
      "d = 10 * digit_val a + digit_val b"
  | (two0) b where "s = CHR ''0'' # b # r" "in_range (CHR ''1'') (CHR ''9'') b" "d = digit_val b"
  | (one) c where "s = c # r" "in_range (CHR ''1'') (CHR ''9'') c" "d = digit_val c"
  | (blank) b where "s = CHR '' '' # b # r" "in_range (CHR ''1'') (CHR ''9'') b" "d = digit_val b"
    by (auto simp: match_d_def split: list.splits if_splits)
  then show ?thesis
  proof cases
    case two3
    then show ?thesis
      by (intro exI[of _ "[CHR ''3'', b]"])
         (simp add: day_text_def text_value_two digit_lits)
  next
    case two12
    then show ?thesis
      by (intro exI[of _ "[a, b]"]) (simp add: day_text_def text_value_two not_blank)
  next
    case two0
    then show ?thesis
      by (intro exI[of _ "[CHR ''0'', b]"])
         (simp add: day_text_def text_value_two digit_lits)
  next
    case one
    then show ?thesis
      by (intro exI[of _ "[c]"]) (simp add: day_text_def text_value_one not_blank)
  next
    case blank
    then show ?thesis
      by (intro exI[of _ "[CHR '' '', b]"])
         (simp add: day_text_def text_value_blank not_blank)
  qed
qed

lemma regex_matches_shape:
  assumes "((y, m, d), r) \<in> set (regex_matches s)"
  shows "\<exists>ys ms ds. s = ys @ CHR ''-'' # ms @ CHR ''-'' # ds @ r
           \<and> length ys = 4 \<and> list_all is_digit ys \<and> month_text ms \<and> day_text ds
           \<and> y = text_value ys \<and> m = text_value ms \<and> d = text_value ds"
proof -
  from assms obtain r1 r2 r3 r4 where
    1: "(y, r1) \<in> set (match_Y s)" and 2: "r2 \<in> set (match_dash r1)" and
    3: "(m, r3) \<in> set (match_m r2)" and 4: "r4 \<in> set (match_dash r3)" and
    5: "(d, r) \<in> set (match_d r4)"
    by (auto simp: regex_matches_def)
  from match_Y_shape[OF 1] obtain ys where
    ys: "s = ys @ r1" "length ys = 4" "list_all is_digit ys" "y = text_value ys" by blast
  from match_m_shape[OF 3] obtain ms where
    ms: "r2 = ms @ r3" "month_text ms" "m = text_value ms" by blast
  from match_d_shape[OF 5] obtain ds where
    ds: "r4 = ds @ r" "day_text ds" "d = text_value ds" by blast
  have "s = ys @ CHR ''-'' # ms @ CHR ''-'' # ds @ r"
    using ys(1) ms(1) ds(1) match_dash_shape[OF 2] match_dash_shape[OF 4] by simp
  with ys ms ds show ?thesis by blast
qed

lemma strptime_sound:
  assumes "strptime s = Some dt"
  shows "\<exists>y m d. reads_as s y m d \<and> check_date_fields y m d
           \<and> dt = \<lparr>year = y, month = m, day = d, hour = 0, minute = 0, second = 0,
                    microsecond = 0\<rparr>"
proof -
  from assms obtain y m d rest where
    r: "regex_matches s = ((y, m, d), []) # rest" and c: "check_date_fields y m d" and
    dt: "dt = \<lparr>year = y, month = m, day = d, hour = 0, minute = 0, second = 0,
               microsecond = 0\<rparr>"
    by (auto simp: strptime_def split: list.splits prod.splits if_splits)
  then have "((y, m, d), []) \<in> set (regex_matches s)" by simp
  from regex_matches_shape[OF this] have "reads_as s y m d"
    by (auto simp: reads_as_def)
  with c dt show ?thesis by blast
qed


lemma match_d_first:
  "day_text ds \<Longrightarrow> \<exists>more. match_d ds = (text_value ds, []) # more"
proof -
  assume a: "day_text ds"
  then consider (one) c where "ds = [c]" "in_range (CHR ''1'') (CHR ''9'') c"
    | (two) a b where "ds = [a, b]"
        "(a = CHR ''3'' \<and> in_range (CHR ''0'') (CHR ''1'') b)
         \<or> (in_range (CHR ''1'') (CHR ''2'') a \<and> is_digit b)
         \<or> (a = CHR ''0'' \<and> in_range (CHR ''1'') (CHR ''9'') b)
         \<or> (a = CHR '' '' \<and> in_range (CHR ''1'') (CHR ''9'') b)"
    by (auto simp: day_text_def split: list.splits)
  then show ?thesis
  proof cases
    case one
    then show ?thesis by (simp add: match_d_def text_value_one not_blank)
  next
    case two
    from two(2) show ?thesis
    proof (elim disjE conjE)
      assume "a = CHR ''3''" "in_range (CHR ''0'') (CHR ''1'') b"
      then show ?thesis
        by (simp add: two(1) match_d_def text_value_two digit_lits)
    next
      assume h: "in_range (CHR ''1'') (CHR ''2'') a" "is_digit b"
      then have "a \<noteq> CHR ''3''" by (auto simp: in_range_def ord_lits)
      with h show ?thesis
        by (simp add: two(1) match_d_def text_value_two not_blank)
    next
      assume h: "a = CHR ''0''" "in_range (CHR ''1'') (CHR ''9'') b"
      then show ?thesis
        by (simp add: two(1) match_d_def text_value_two digit_lits in_range_def ord_lits)
    next
      assume h: "a = CHR '' ''" "in_range (CHR ''1'') (CHR ''9'') b"
      then have "b \<noteq> CHR '' ''" by (simp add: not_blank)
      with h show ?thesis
        by (simp add: two(1) match_d_def text_value_blank in_range_def ord_lits)
    qed
  qed
qed

lemma match_m_first:
  "month_text ms \<Longrightarrow>
     \<exists>more. match_m (ms @ CHR ''-'' # r) = (text_value ms, CHR ''-'' # r) # more"
proof -
  assume a: "month_text ms"
  then consider (one) c where "ms = [c]" "in_range (CHR ''1'') (CHR ''9'') c"
    | (two) a b where "ms = [a, b]"
        "(a = CHR ''1'' \<and> in_range (CHR ''0'') (CHR ''2'') b)
         \<or> (a = CHR ''0'' \<and> in_range (CHR ''1'') (CHR ''9'') b)"
    by (auto simp: month_text_def split: list.splits)
  then show ?thesis
  proof cases
    case one
    then show ?thesis
      by (simp add: match_m_def text_value_one not_blank in_range_def ord_lits)
  next
    case two
    from two(2) show ?thesis
    proof (elim disjE conjE)
      assume "a = CHR ''1''" "in_range (CHR ''0'') (CHR ''2'') b"
      then show ?thesis
        by (simp add: two(1) match_m_def text_value_two digit_lits)
    next
      assume "a = CHR ''0''" "in_range (CHR ''1'') (CHR ''9'') b"
      then show ?thesis
        by (simp add: two(1) match_m_def text_value_two digit_lits in_range_def ord_lits)
    qed
  qed
qed

lemma match_Y_first:
  "length ys = 4 \<Longrightarrow> list_all is_digit ys \<Longrightarrow> match_Y (ys @ r) = [(text_value ys, r)]"
proof -
  assume l: "length ys = 4" and d: "list_all is_digit ys"
  from l obtain a b c e where ys: "ys = [a, b, c, e]"
    by (auto simp: length_Suc_conv numeral_eq_Suc)
  have "a \<noteq> CHR '' ''" using d ys by (simp add: not_blank)
  then show ?thesis using d ys by (simp add: text_value_def)
qed

lemma regex_matches_first:
  assumes "reads_as s y m d"
  shows "\<exists>more. regex_matches s = ((y, m, d), []) # more"
proof -
  from assms obtain ys ms ds where
    s: "s = ys @ CHR ''-'' # ms @ CHR ''-'' # ds" and
    ys: "length ys = 4" "list_all is_digit ys" and ms: "month_text ms" and ds: "day_text ds" and
    v: "y = text_value ys" "m = text_value ms" "d = text_value ds"
    by (auto simp: reads_as_def)
  from match_m_first[OF ms, of ds] obtain mm where
    mm: "match_m (ms @ CHR ''-'' # ds) = (m, CHR ''-'' # ds) # mm" using v by auto
  from match_d_first[OF ds] obtain dm where
    dm: "match_d ds = (d, []) # dm" using v by auto
  show ?thesis
    using match_Y_first[OF ys, of "CHR ''-'' # ms @ CHR ''-'' # ds"] mm dm v
    by (simp add: regex_matches_def s match_dash_def)
qed

lemma strptime_complete:
  assumes "reads_as s y m d" and "check_date_fields y m d"
  shows "strptime s = Some \<lparr>year = y, month = m, day = d, hour = 0, minute = 0, second = 0,
                            microsecond = 0\<rparr>"
proof -
  from regex_matches_first[OF assms(1)] obtain more where
    "regex_matches s = ((y, m, d), []) # more" by blast
  then show ?thesis using assms(2) by (simp add: strptime_def)
qed

lemma reads_as_unique:
  "reads_as s y m d \<Longrightarrow> reads_as s y' m' d' \<Longrightarrow> y' = y \<and> m' = m \<and> d' = d"
proof -
  assume a: "reads_as s y m d" and b: "reads_as s y' m' d'"
  from regex_matches_first[OF a] regex_matches_first[OF b] show ?thesis by auto
qed

lemma strptime_None_iff:
  "strptime s = None \<longleftrightarrow> \<not> (\<exists>y m d. reads_as s y m d \<and> check_date_fields y m d)"
proof
  assume "strptime s = None"
  then show "\<not> (\<exists>y m d. reads_as s y m d \<and> check_date_fields y m d)"
    using strptime_complete by fastforce
next
  assume n: "\<not> (\<exists>y m d. reads_as s y m d \<and> check_date_fields y m d)"
  show "strptime s = None"
  proof (cases "strptime s")
    case None
    then show ?thesis .
  next
    case (Some dt)
    from strptime_sound[OF this] n show ?thesis by blast
  qed
qed

lemma reads_as_dash: "reads_as s y m d \<Longrightarrow> 4 < length s \<and> s ! 4 = CHR ''-''"
  by (auto simp: reads_as_def nth_append)

text \<open>
  C7, amended. For a status string that is not a done synonym and any deadline string,
  the result is the value \<open>(UNKNOWN, 0)\<close> exactly when the string is not a valid calendar
  date written as a four-digit year, a dash, a month of one or two digits, a dash and a
  day of one or two digits (or a blank and a digit). The empty string is such a string.
\<close>

theorem rejected_deadline_unknown:
  assumes "lower st \<notin> set [''done'', ''completed'']"
  shows "calculate_risk_level now (PStr dl) (PStr st) = Inr (UNKNOWN, 0)
         \<longleftrightarrow> \<not> (\<exists>y m d. reads_as dl y m d \<and> check_date_fields y m d)"
proof -
  have "calculate_risk_level now (PStr dl) (PStr st) = Inr (UNKNOWN, 0)
        \<longleftrightarrow> strptime dl = None"
    using assms by (auto simp: calculate_risk_level_def Let_def split: option.splits)
  then show ?thesis by (simp add: strptime_None_iff)
qed

theorem rejected_deadline_unknown_witness:
  "lower ''todo'' \<notin> set [''done'', ''completed'']
   \<and> calculate_risk_level sample_now (PStr '''') (PStr ''todo'') = Inr (UNKNOWN, 0)
   \<and> calculate_risk_level sample_now (PStr ''15/06/2025'') (PStr ''todo'') = Inr (UNKNOWN, 0)
   \<and> reads_as ''2021-02-29'' 2021 2 29
   \<and> calculate_risk_level sample_now (PStr ''2021-02-29'') (PStr ''todo'') = Inr (UNKNOWN, 0)"
proof -
  have a: "lower ''todo'' \<notin> set [''done'', ''completed'']" by code_simp
  have e: "\<not> (\<exists>y m d. reads_as '''' y m d \<and> check_date_fields y m d)"
    by (simp add: reads_as_def)
  have "''15/06/2025'' ! 4 \<noteq> CHR ''-''" by code_simp
  then have s: "\<not> (\<exists>y m d. reads_as ''15/06/2025'' y m d \<and> check_date_fields y m d)"
    using reads_as_dash by blast
  have parts: "month_text ''02''" "day_text ''29''" "list_all is_digit ''2021''"
    "text_value ''2021'' = 2021" "text_value ''02'' = 2" "text_value ''29'' = 29"
    by code_simp+
  have shape: "''2021-02-29'' = ''2021'' @ CHR ''-'' # ''02'' @ CHR ''-'' # ''29''"
    "length ''2021'' = 4"
    by simp_all
  have r: "reads_as ''2021-02-29'' 2021 2 29"
    unfolding reads_as_def
    apply (rule exI[of _ "''2021''"])
    apply (rule exI[of _ "''02''"])
    apply (rule exI[of _ "''29''"])
    apply (intro conjI)
           apply (rule shape parts)+
      apply (simp_all only: parts)
    done
  have c: "\<not> check_date_fields 2021 2 29" by code_simp
  have f: "\<not> (\<exists>y m d. reads_as ''2021-02-29'' y m d \<and> check_date_fields y m d)"
    using reads_as_unique[OF r] c by blast
  show ?thesis
    using rejected_deadline_unknown[OF a, of sample_now "''''"]
          rejected_deadline_unknown[OF a, of sample_now "''15/06/2025''"]
          rejected_deadline_unknown[OF a, of sample_now "''2021-02-29''"]
          a e s r f
    by simp
qed

subsection \<open>Dictionaries and the graph\<close>

lemma map_of_dict_set: "map_of (dict_set d k v) = (map_of d)(k \<mapsto> v)"
  by (induction d k v rule: dict_set.induct) (auto simp: fun_eq_iff)

lemma keys_dict_set:
  "map fst (dict_set d k v) = (if k \<in> set (map fst d) then map fst d else map fst d @ [k])"
  by (induction d k v rule: dict_set.induct) auto

lemma distinct_dict_set: "distinct (map fst d) \<Longrightarrow> distinct (map fst (dict_set d k v))"
  by (simp add: keys_dict_set)

lemma keys_dict_set_present:
  "map_of d k = Some w \<Longrightarrow> map fst (dict_set d k v) = map fst d"
  by (simp add: keys_dict_set) (metis domI dom_map_of_conv_image_fst)

text \<open>The first loop of \<open>build_dependency_graph\<close>.\<close>

lemma init_maps_graph:
  "init_maps now ts (g, s, r) = Inr (g', s', r') \<Longrightarrow>
     map_of g' k = (if k \<in> set (map (\<lambda>t. get (task_id t)) ts) then Some [] else map_of g k)"
proof (induction ts arbitrary: g s r)
  case Nil
  then show ?case by simp
next
  case (Cons t ts)
  then show ?case
    by (auto simp: Let_def map_of_dict_set split: if_splits sum.splits prod.splits)
qed

lemma init_maps_keys:
  "init_maps now ts (g, s, r) = Inr (g', s', r') \<Longrightarrow> distinct (map fst g) \<Longrightarrow>
     distinct (map fst g') \<and> set (map fst g') = set (map fst g) \<union> set (map (\<lambda>t. get (task_id t)) ts)"
proof (induction ts arbitrary: g s r)
  case Nil
  then show ?case by simp
next
  case (Cons t ts)
  from Cons.prems obtain rk n where
    rk: "task_risk now t = Inr (rk, n)" and
    rest: "init_maps now ts (dict_set g (get (task_id t)) [],
             dict_set s (get (task_id t)) (get_default (task_status t) (PStr ''todo'')),
             dict_set r (get (task_id t)) rk) = Inr (g', s', r')"
    by (auto simp: Let_def split: if_splits sum.splits prod.splits)
  have d: "distinct (map fst (dict_set g (get (task_id t)) []))"
    using Cons.prems(2) by (rule distinct_dict_set)
  show ?case
    using Cons.IH[OF rest d] by (auto simp: keys_dict_set split: if_splits)
qed

lemma init_maps_ok:
  "init_maps now ts (g, s, r) = Inr (g', s', r') \<Longrightarrow> t \<in> set ts \<Longrightarrow>
     hashable (get (task_id t)) \<and> (\<exists>rk n. task_risk now t = Inr (rk, n))"
proof (induction ts arbitrary: g s r)
  case Nil
  then show ?case by simp
next
  case (Cons a ts)
  then show ?case
    by (auto simp: Let_def split: if_splits sum.splits prod.splits)
qed

lemma init_maps_risk_other:
  "init_maps now ts (g, s, r) = Inr (g', s', r') \<Longrightarrow>
     k \<notin> set (map (\<lambda>t. get (task_id t)) ts) \<Longrightarrow> map_of r' k = map_of r k"
proof (induction ts arbitrary: g s r)
  case Nil
  then show ?case by simp
next
  case (Cons a ts)
  then show ?case
    by (auto simp: Let_def map_of_dict_set split: if_splits sum.splits prod.splits)
qed

lemma init_maps_risk:
  "init_maps now ts (g, s, r) = Inr (g', s', r') \<Longrightarrow>
     distinct (map (\<lambda>t. get (task_id t)) ts) \<Longrightarrow> t \<in> set ts \<Longrightarrow>
     \<exists>n. task_risk now t = Inr (the (map_of r' (get (task_id t))), n)
         \<and> map_of r' (get (task_id t)) \<noteq> None"
proof (induction ts arbitrary: g s r)
  case Nil
  then show ?case by simp
next
  case (Cons a ts)
  from Cons.prems(1) obtain rk n where
    rk: "task_risk now a = Inr (rk, n)" and
    rest: "init_maps now ts (dict_set g (get (task_id a)) [],
             dict_set s (get (task_id a)) (get_default (task_status a) (PStr ''todo'')),
             dict_set r (get (task_id a)) rk) = Inr (g', s', r')"
    by (auto simp: Let_def split: if_splits sum.splits prod.splits)
  show ?case
  proof (cases "t \<in> set ts")
    case True
    then show ?thesis using Cons.IH[OF rest] Cons.prems(2) by simp
  next
    case False
    then have ta: "t = a" using Cons.prems(3) by simp
    have "get (task_id a) \<notin> set (map (\<lambda>t. get (task_id t)) ts)"
      using Cons.prems(2) by simp
    from init_maps_risk_other[OF rest this]
    have "map_of r' (get (task_id a)) = Some rk" by (simp add: map_of_dict_set)
    then show ?thesis using rk ta by simp
  qed
qed

text \<open>The second loop: every declaration of a known predecessor appends one entry.\<close>

lemma add_edges_lookup:
  "add_edges tid ds g = Inr g' \<Longrightarrow>
     map_of g' k = map_option (\<lambda>l. l @ replicate (count_list ds k) tid) (map_of g k)
     \<and> map fst g' = map fst g"
proof (induction ds arbitrary: g)
  case Nil
  then show ?case by (simp add: option.map_ident)
next
  case (Cons d ds)
  show ?case
  proof (cases "dict_get g d")
    case None
    then have "add_edges tid ds g = Inr g'" using Cons.prems by (simp split: if_splits)
    from Cons.IH[OF this] None show ?thesis by (auto simp: dict_get_def)
  next
    case (Some l)
    then have "add_edges tid ds (dict_set g d (l @ [tid])) = Inr g'"
      using Cons.prems by (simp split: if_splits)
    from Cons.IH[OF this] Some show ?thesis
      by (auto simp: dict_get_def map_of_dict_set keys_dict_set_present replicate_append_same)
  qed
qed

lemma populate_lookup:
  "populate ts g = Inr g' \<Longrightarrow>
     map_of g' k = map_option (\<lambda>l. l @ dependents_of ts k) (map_of g k)
     \<and> map fst g' = map fst g"
proof (induction ts arbitrary: g)
  case Nil
  then show ?case by (simp add: dependents_of_def option.map_ident)
next
  case (Cons t ts)
  show ?case
  proof (cases "truthy (get (depends_on t))")
    case False
    then have "populate ts g = Inr g'" using Cons.prems by (simp add: Let_def)
    from Cons.IH[OF this] False show ?thesis
      by (simp add: dependents_of_def task_deps_def)
  next
    case True
    then obtain g1 where
      e: "add_edges (get (task_id t)) (parse_deps (get (depends_on t))) g = Inr g1" and
      p: "populate ts g1 = Inr g'"
      using Cons.prems by (auto simp: Let_def split: sum.splits)
    from add_edges_lookup[OF e, of k] Cons.IH[OF p] True show ?thesis
      by (cases "map_of g k") (auto simp: dependents_of_def task_deps_def)
  qed
qed

lemma build_lookup:
  assumes "build_dependency_graph now tasks = Inr (g, s, r)"
  shows "map_of g k = (if k \<in> set (map (\<lambda>t. get (task_id t)) tasks)
                       then Some (dependents_of tasks k) else None)"
    and "distinct (map fst g)"
    and "set (map fst g) = set (map (\<lambda>t. get (task_id t)) tasks)"
proof -
  from assms obtain g0 where
    i: "init_maps now tasks ([], [], []) = Inr (g0, s, r)" and
    p: "populate tasks g0 = Inr g"
    by (auto simp: build_dependency_graph_def split: sum.splits prod.splits)
  from init_maps_graph[OF i, of k] populate_lookup[OF p, of k]
  show "map_of g k = (if k \<in> set (map (\<lambda>t. get (task_id t)) tasks)
                       then Some (dependents_of tasks k) else None)"
    by simp
  from init_maps_keys[OF i] populate_lookup[OF p, of k]
  show "distinct (map fst g)" and "set (map fst g) = set (map (\<lambda>t. get (task_id t)) tasks)"
    by simp_all
qed

lemma set_identify_bottlenecks:
  "distinct (map fst g) \<Longrightarrow>
     k \<in> set (identify_bottlenecks g) \<longleftrightarrow> (\<exists>ds. map_of g k = Some ds \<and> length ds > 1)"
  by (force simp: identify_bottlenecks_def image_iff)

subsection \<open>Blocked tasks\<close>

lemma block_deps_set:
  "block_deps tid ds rm b = Inr b' \<Longrightarrow>
     set b' = set b \<union> (if \<exists>d \<in> set ds. risky rm d then {tid} else {})"
proof (induction ds arbitrary: b)
  case Nil
  then show ?case by simp
next
  case (Cons d ds)
  show ?case
  proof (cases "risky rm d")
    case True
    then have "block_deps tid ds rm (set_add b tid) = Inr b'"
      using Cons.prems by (auto simp: risky_def dict_get_def Let_def split: if_splits)
    from Cons.IH[OF this] True show ?thesis by (auto simp: set_add_def split: if_splits)
  next
    case False
    then have "block_deps tid ds rm b = Inr b'"
      using Cons.prems by (auto simp: risky_def dict_get_def Let_def split: if_splits)
    from Cons.IH[OF this] False show ?thesis by auto
  qed
qed

lemma identify_blocked_set:
  "identify_blocked ts rm b = Inr b' \<Longrightarrow>
     set b' = set b \<union> {get (task_id t) | t. t \<in> set ts \<and> (\<exists>d \<in> set (task_deps t). risky rm d)}"
proof (induction ts arbitrary: b)
  case Nil
  then show ?case by simp
next
  case (Cons t ts)
  show ?case
  proof (cases "truthy (get (depends_on t))")
    case False
    then have "identify_blocked ts rm b = Inr b'" using Cons.prems by (simp add: Let_def)
    from Cons.IH[OF this] False show ?thesis by (auto simp: task_deps_def)
  next
    case True
    then obtain b1 where
      e: "block_deps (get (task_id t)) (parse_deps (get (depends_on t))) rm b = Inr b1" and
      p: "identify_blocked ts rm b1 = Inr b'"
      using Cons.prems by (auto simp: Let_def split: sum.splits)
    from block_deps_set[OF e] Cons.IH[OF p] True show ?thesis
      by (auto simp: task_deps_def split: if_splits)
  qed
qed

lemma analyze_parts:
  assumes "analyze_cascading_risks now tasks = Inr (blocked, bns)"
  obtains g s r where "build_dependency_graph now tasks = Inr (g, s, r)"
    and "identify_blocked tasks r [] = Inr blocked" and "bns = identify_bottlenecks g"
  using assms by (auto simp: analyze_cascading_risks_def split: sum.splits prod.splits)

lemma build_risk_map:
  assumes "build_dependency_graph now tasks = Inr (g, s, r)"
  shows "k \<notin> set (map (\<lambda>t. get (task_id t)) tasks) \<Longrightarrow> map_of r k = None"
    and "distinct (map (\<lambda>t. get (task_id t)) tasks) \<Longrightarrow> t \<in> set tasks \<Longrightarrow>
           \<exists>rk n. task_risk now t = Inr (rk, n) \<and> map_of r (get (task_id t)) = Some rk"
proof -
  from assms obtain g0 where
    i: "init_maps now tasks ([], [], []) = Inr (g0, s, r)"
    by (auto simp: build_dependency_graph_def split: sum.splits prod.splits)
  show "k \<notin> set (map (\<lambda>t. get (task_id t)) tasks) \<Longrightarrow> map_of r k = None"
    using init_maps_risk_other[OF i, of k] by simp
  show "distinct (map (\<lambda>t. get (task_id t)) tasks) \<Longrightarrow> t \<in> set tasks \<Longrightarrow>
           \<exists>rk n. task_risk now t = Inr (rk, n) \<and> map_of r (get (task_id t)) = Some rk"
    using init_maps_risk[OF i, of t] by auto
qed

lemma blocked_iff:
  assumes "analyze_cascading_risks now tasks = Inr (blocked, bns)"
    and "distinct (map (\<lambda>t. get (task_id t)) tasks)"
    and "t \<in> set tasks"
  shows "get (task_id t) \<in> set blocked \<longleftrightarrow>
           (\<exists>d \<in> set (task_deps t). \<exists>p \<in> set tasks. get (task_id p) = d \<and>
              (\<exists>n. task_risk now p = Inr (CRITICAL, n) \<or> task_risk now p = Inr (HIGH, n)))"
proof -
  from assms(1) obtain g s r where
    b: "build_dependency_graph now tasks = Inr (g, s, r)" and
    ib: "identify_blocked tasks r [] = Inr blocked"
    by (rule analyze_parts)
  have risky_iff: "risky r d \<longleftrightarrow>
      (\<exists>p \<in> set tasks. get (task_id p) = d \<and>
         (\<exists>n. task_risk now p = Inr (CRITICAL, n) \<or> task_risk now p = Inr (HIGH, n)))" for d
  proof
    assume rd: "risky r d"
    then have "map_of r d \<noteq> None" by (auto simp: risky_def)
    then have "d \<in> set (map (\<lambda>t. get (task_id t)) tasks)"
      using build_risk_map(1)[OF b, of d] by (cases "d \<in> set (map (\<lambda>t. get (task_id t)) tasks)") simp_all
    then obtain p where p: "p \<in> set tasks" "get (task_id p) = d" by auto
    from build_risk_map(2)[OF b assms(2) p(1)] p(2) rd
    show "\<exists>p \<in> set tasks. get (task_id p) = d \<and>
         (\<exists>n. task_risk now p = Inr (CRITICAL, n) \<or> task_risk now p = Inr (HIGH, n))"
      using p(1) by (auto simp: risky_def)
  next
    assume "\<exists>p \<in> set tasks. get (task_id p) = d \<and>
         (\<exists>n. task_risk now p = Inr (CRITICAL, n) \<or> task_risk now p = Inr (HIGH, n))"
    then obtain p n where p: "p \<in> set tasks" "get (task_id p) = d"
      "task_risk now p = Inr (CRITICAL, n) \<or> task_risk now p = Inr (HIGH, n)" by blast
    from build_risk_map(2)[OF b assms(2) p(1)] p(2,3)
    show "risky r d" by (auto simp: risky_def)
  qed
  have inj: "t' = t" if "t' \<in> set tasks" "get (task_id t') = get (task_id t)" for t'
    using assms(2,3) that by (meson distinct_map inj_onD)
  have "get (task_id t) \<in> set blocked \<longleftrightarrow> (\<exists>d \<in> set (task_deps t). risky r d)"
    using identify_blocked_set[OF ib] inj assms(3) by auto
  then show ?thesis by (simp add: risky_iff)
qed

lemma split_comma_no_comma: "CHR '','' \<notin> set p \<Longrightarrow> split_comma p = [p]"
  by (induction p) auto

lemma split_comma_append:
  "CHR '','' \<notin> set p \<Longrightarrow> split_comma (p @ CHR '','' # rest) = p # split_comma rest"
  by (induction p) auto

lemma split_comma_join:
  "ps \<noteq> [] \<Longrightarrow> \<forall>p \<in> set ps. CHR '','' \<notin> set p \<Longrightarrow> split_comma (join_comma ps) = ps"
proof (induction ps rule: join_comma.induct)
  case 1
  then show ?case by simp
next
  case (2 p)
  then show ?case by (simp add: split_comma_no_comma)
next
  case (3 p q ps)
  then show ?case by (simp add: split_comma_append)
qed

lemma task_deps_cases:
  "(\<forall>ps. get (depends_on t) = PStr (join_comma ps) \<and> join_comma ps \<noteq> []
          \<and> (\<forall>p \<in> set ps. CHR '','' \<notin> set p)
        \<longrightarrow> task_deps t = map (\<lambda>p. PStr (strip p)) ps)
   \<and> (truthy (get (depends_on t)) \<and> \<not> is_str (get (depends_on t))
        \<longrightarrow> task_deps t = [get (depends_on t)])
   \<and> (\<not> truthy (get (depends_on t)) \<longrightarrow> task_deps t = [])"
proof (intro conjI allI impI)
  fix ps
  assume a: "get (depends_on t) = PStr (join_comma ps) \<and> join_comma ps \<noteq> []
          \<and> (\<forall>p \<in> set ps. CHR '','' \<notin> set p)"
  then have "ps \<noteq> []" by auto
  with a have "split_comma (join_comma ps) = ps" by (simp add: split_comma_join)
  with a show "task_deps t = map (\<lambda>p. PStr (strip p)) ps"
    by (simp add: task_deps_def parse_deps_def)
next
  assume "truthy (get (depends_on t)) \<and> \<not> is_str (get (depends_on t))"
  then show "task_deps t = [get (depends_on t)]"
    by (cases "get (depends_on t)") (auto simp: task_deps_def parse_deps_def)
next
  assume "\<not> truthy (get (depends_on t))"
  then show "task_deps t = []" by (simp add: task_deps_def)
qed

lemma at_risk_iff:
  "at_risk now p \<longleftrightarrow>
     (\<exists>n. task_risk now p = Inr (CRITICAL, n) \<or> task_risk now p = Inr (HIGH, n))"
  by (auto simp: at_risk_def split: sum.splits prod.splits)

text \<open>
  C1. With unique task ids, a task's id is in the blocked set exactly when one of the
  predecessors it declares is the id of a task whose own classification, before any
  override, is CRITICAL or HIGH. The declared predecessors are the stripped pieces of a
  comma-separated string, the value itself when it is truthy and not a string, and none
  when it is falsy. The right-hand side looks one edge back and at intrinsic tiers only,
  so a predecessor of any other tier, or one that is itself blocked, does not block, and
  nothing is carried over a second hop.
\<close>

theorem blocked_iff_direct_predecessor_at_risk:
  assumes "analyze_cascading_risks now tasks = Inr (blocked, bns)"
    and "distinct (map (\<lambda>t. get (task_id t)) tasks)"
    and "t \<in> set tasks"
  shows "(get (task_id t) \<in> set blocked \<longleftrightarrow>
           (\<exists>d \<in> set (task_deps t). \<exists>p \<in> set tasks. get (task_id p) = d \<and>
              (\<exists>n. task_risk now p = Inr (CRITICAL, n) \<or> task_risk now p = Inr (HIGH, n))))
         \<and> (\<forall>ps. get (depends_on t) = PStr (join_comma ps) \<and> join_comma ps \<noteq> []
                  \<and> (\<forall>p \<in> set ps. CHR '','' \<notin> set p)
                \<longrightarrow> task_deps t = map (\<lambda>p. PStr (strip p)) ps)
         \<and> (truthy (get (depends_on t)) \<and> \<not> is_str (get (depends_on t))
               \<longrightarrow> task_deps t = [get (depends_on t)])
         \<and> (\<not> truthy (get (depends_on t)) \<longrightarrow> task_deps t = [])"
  using blocked_iff[OF assms] task_deps_cases[of t] by blast

theorem blocked_iff_direct_predecessor_at_risk_witness:
  "\<not> isl (analyze_cascading_risks sample_now mixed_deps_tasks)
   \<and> distinct (map (\<lambda>t. get (task_id t)) mixed_deps_tasks)
   \<and> todo_task ''E'' ''2099-01-01'' (Some (PStr ''B, A'')) \<in> set mixed_deps_tasks
   \<and> todo_task ''F'' ''2099-01-01'' (Some (PStr ''E'')) \<in> set mixed_deps_tasks
   \<and> join_comma [''B'', '' A''] = ''B, A''
   \<and> task_deps (todo_task ''E'' ''2099-01-01'' (Some (PStr ''B, A''))) = [PStr ''B'', PStr ''A'']
   \<and> task_risk sample_now (todo_task ''A'' ''2020-01-01'' None) = Inr (CRITICAL, -1993)
   \<and> PStr ''E'' \<in> set (fst (projr (analyze_cascading_risks sample_now mixed_deps_tasks)))
   \<and> PStr ''F'' \<notin> set (fst (projr (analyze_cascading_risks sample_now mixed_deps_tasks)))"
proof -
  let ?e = "todo_task ''E'' ''2099-01-01'' (Some (PStr ''B, A''))"
  let ?f = "todo_task ''F'' ''2099-01-01'' (Some (PStr ''E''))"
  let ?a = "todo_task ''A'' ''2020-01-01'' None"
  have n: "\<not> isl (analyze_cascading_risks sample_now mixed_deps_tasks)" by code_simp
  then obtain bl bn where
    a: "analyze_cascading_risks sample_now mixed_deps_tasks = Inr (bl, bn)"
    by (cases "analyze_cascading_risks sample_now mixed_deps_tasks") auto
  have d: "distinct (map (\<lambda>t. get (task_id t)) mixed_deps_tasks)" by code_simp
  have me: "?e \<in> set mixed_deps_tasks" and mf: "?f \<in> set mixed_deps_tasks"
    and ma: "?a \<in> set mixed_deps_tasks"
    by (simp_all add: mixed_deps_tasks_def)
  have j: "join_comma [''B'', '' A''] = ''B, A''" by simp
  have st: "strip ''B'' = ''B''" "strip '' A'' = ''A''" by code_simp+
  have ra: "task_risk sample_now ?a = Inr (CRITICAL, -1993)" by code_simp
  have ids: "get (task_id ?e) = PStr ''E''" "get (task_id ?f) = PStr ''F''"
    "get (task_id ?a) = PStr ''A''" "get (depends_on ?e) = PStr ''B, A''"
    by (simp_all add: todo_task_def get_def)
  note e = blocked_iff_direct_predecessor_at_risk[OF a d me]
  note f = blocked_iff_direct_predecessor_at_risk[OF a d mf]
  have de: "task_deps ?e = [PStr ''B'', PStr ''A'']"
    using e[THEN conjunct2, THEN conjunct1, rule_format, of "[''B'', '' A'']"] ids(4) st
    by simp
  have be: "PStr ''E'' \<in> set bl"
    using e[THEN conjunct1] de ma ra ids by auto
  have "\<not> (\<exists>d \<in> set (task_deps ?f). \<exists>p \<in> set mixed_deps_tasks.
              get (task_id p) = d \<and> at_risk sample_now p)"
    by code_simp
  then have nf: "\<not> (\<exists>d \<in> set (task_deps ?f). \<exists>p \<in> set mixed_deps_tasks. get (task_id p) = d \<and>
              (\<exists>n. task_risk sample_now p = Inr (CRITICAL, n)
                  \<or> task_risk sample_now p = Inr (HIGH, n)))"
    by (simp add: at_risk_iff)
  have bf: "PStr ''F'' \<notin> set bl"
    using f[THEN conjunct1] nf ids by simp
  show ?thesis using n a d me mf j de ra be bf by simp
qed

subsection \<open>The analysis returns on plain tasks\<close>

lemma is_strD: "is_str v \<Longrightarrow> \<exists>s. v = PStr s"
  by (cases v) auto

lemma plain_task_risk: "plain_task t \<Longrightarrow> \<exists>r n. task_risk now t = Inr (r, n)"
proof -
  assume p: "plain_task t"
  from p obtain st where st: "get_default (task_status t) (PStr []) = PStr st"
    using is_strD by (auto simp: plain_task_def)
  from p obtain dl where dl: "get_default (task_deadline t) (PStr []) = PStr dl"
    using is_strD by (auto simp: plain_task_def)
  show ?thesis
    using st dl
    by (auto simp: task_risk_def calculate_risk_level_def Let_def split: option.splits)
qed

lemma parse_deps_hashable:
  "hashable dep \<Longrightarrow> d \<in> set (parse_deps dep) \<Longrightarrow> hashable d"
  by (cases dep) (auto simp: parse_deps_def)

lemma add_edges_total:
  "\<forall>d \<in> set ds. hashable d \<Longrightarrow> \<exists>g'. add_edges tid ds g = Inr g'"
  by (induction ds arbitrary: g) (auto split: option.splits)

lemma populate_total:
  "\<forall>t \<in> set ts. plain_task t \<Longrightarrow> \<exists>g'. populate ts g = Inr g'"
proof (induction ts arbitrary: g)
  case Nil
  then show ?case by simp
next
  case (Cons t ts)
  show ?case
  proof (cases "truthy (get (depends_on t))")
    case False
    then show ?thesis using Cons by (simp add: Let_def)
  next
    case True
    then have "\<forall>d \<in> set (parse_deps (get (depends_on t))). hashable d"
      using Cons.prems by (auto simp: plain_task_def intro: parse_deps_hashable)
    from add_edges_total[OF this] obtain g1 where
      "add_edges (get (task_id t)) (parse_deps (get (depends_on t))) g = Inr g1" by blast
    then show ?thesis using Cons True by (simp add: Let_def)
  qed
qed

lemma init_maps_total:
  "\<forall>t \<in> set ts. plain_task t \<Longrightarrow> \<exists>g' s' r'. init_maps now ts (g, s, r) = Inr (g', s', r')"
proof (induction ts arbitrary: g s r)
  case Nil
  then show ?case by simp
next
  case (Cons t ts)
  then obtain rk n where rk: "task_risk now t = Inr (rk, n)"
    using plain_task_risk[of t now] by auto
  have h: "hashable (get (task_id t))" using Cons.prems by (simp add: plain_task_def)
  show ?case using Cons rk h by (simp add: Let_def)
qed

lemma build_total:
  "\<forall>t \<in> set ts. plain_task t \<Longrightarrow> \<exists>g s r. build_dependency_graph now ts = Inr (g, s, r)"
proof -
  assume p: "\<forall>t \<in> set ts. plain_task t"
  from init_maps_total[OF p] obtain g0 s r where
    i: "init_maps now ts ([], [], []) = Inr (g0, s, r)" by blast
  from populate_total[OF p] obtain g where "populate ts g0 = Inr g" by blast
  with i show ?thesis by (simp add: build_dependency_graph_def)
qed

lemma block_deps_total:
  "\<forall>d \<in> set ds. hashable d \<Longrightarrow> hashable tid \<Longrightarrow> \<exists>b'. block_deps tid ds rm b = Inr b'"
  by (induction ds arbitrary: b) (auto simp: Let_def)

lemma identify_blocked_total:
  "\<forall>t \<in> set ts. plain_task t \<Longrightarrow> \<exists>b'. identify_blocked ts rm b = Inr b'"
proof (induction ts arbitrary: b)
  case Nil
  then show ?case by simp
next
  case (Cons t ts)
  show ?case
  proof (cases "truthy (get (depends_on t))")
    case False
    then show ?thesis using Cons by (simp add: Let_def)
  next
    case True
    then have "\<forall>d \<in> set (parse_deps (get (depends_on t))). hashable d"
      using Cons.prems by (auto simp: plain_task_def intro: parse_deps_hashable)
    moreover have "hashable (get (task_id t))" using Cons.prems by (simp add: plain_task_def)
    ultimately obtain b1 where
      "block_deps (get (task_id t)) (parse_deps (get (depends_on t))) rm b = Inr b1"
      using block_deps_total by blast
    then show ?thesis using Cons True by (simp add: Let_def)
  qed
qed

lemma analyze_total:
  "\<forall>t \<in> set ts. plain_task t \<Longrightarrow> \<exists>b bn. analyze_cascading_risks now ts = Inr (b, bn)"
proof -
  assume p: "\<forall>t \<in> set ts. plain_task t"
  from build_total[OF p] obtain g s r where
    "build_dependency_graph now ts = Inr (g, s, r)" by blast
  moreover from identify_blocked_total[OF p] obtain b where
    "identify_blocked ts r [] = Inr b" by blast
  ultimately show ?thesis by (simp add: analyze_cascading_risks_def)
qed

subsection \<open>Effective tiers\<close>

lemma analyze_tasks_total:
  "\<forall>t \<in> set ts. plain_task t \<Longrightarrow> \<exists>c' out. analyze_tasks now b bn ts (c, acc) = Inr (c', out)"
proof (induction ts arbitrary: c acc)
  case Nil
  then show ?case by simp
next
  case (Cons t ts)
  then obtain rk n where rk: "task_risk now t = Inr (rk, n)"
    using plain_task_risk[of t now] by auto
  show ?case using Cons rk by (simp add: Let_def)
qed

lemma analyze_tasks_entries:
  "analyze_tasks now b bn ts (c, acc) = Inr (c', out) \<Longrightarrow>
     \<exists>news. out = acc @ news \<and>
       list_all2 (\<lambda>t a. \<exists>r n. task_risk now t = Inr (r, n)
                    \<and> a_id a = get (task_id t)
                    \<and> a_risk a = override_risk b (get (task_id t)) r
                    \<and> a_days_remaining a = n
                    \<and> a_is_bottleneck a = (get (task_id t) \<in> set bn)) ts news"
proof (induction ts arbitrary: c acc)
  case Nil
  then show ?case by simp
next
  case (Cons t ts)
  from Cons.prems obtain r n where
    rk: "task_risk now t = Inr (r, n)" and
    rest: "analyze_tasks now b bn ts
             (c(override_risk b (get (task_id t)) r := c (override_risk b (get (task_id t)) r) + 1),
              acc @ [\<lparr>a_id = get (task_id t), a_name = get (task_name t),
                       a_deadline = get (task_deadline t),
                       a_risk = override_risk b (get (task_id t)) r,
                       a_days_remaining = n, a_time_text = format_time_remaining n,
                       a_is_bottleneck = (get (task_id t) \<in> set bn)\<rparr>]) = Inr (c', out)"
    by (auto simp: Let_def split: sum.splits prod.splits)
  from Cons.IH[OF rest] obtain news where
    "out = (acc @ [\<lparr>a_id = get (task_id t), a_name = get (task_name t),
                       a_deadline = get (task_deadline t),
                       a_risk = override_risk b (get (task_id t)) r,
                       a_days_remaining = n, a_time_text = format_time_remaining n,
                       a_is_bottleneck = (get (task_id t) \<in> set bn)\<rparr>]) @ news"
    and "list_all2 (\<lambda>t a. \<exists>r n. task_risk now t = Inr (r, n)
                    \<and> a_id a = get (task_id t)
                    \<and> a_risk a = override_risk b (get (task_id t)) r
                    \<and> a_days_remaining a = n
                    \<and> a_is_bottleneck a = (get (task_id t) \<in> set bn)) ts news"
    by blast
  then show ?case using rk
    by (intro exI[of _ "\<lparr>a_id = get (task_id t), a_name = get (task_name t),
                       a_deadline = get (task_deadline t),
                       a_risk = override_risk b (get (task_id t)) r,
                       a_days_remaining = n, a_time_text = format_time_remaining n,
                       a_is_bottleneck = (get (task_id t) \<in> set bn)\<rparr> # news"]) simp
qed

lemma handle_parts:
  assumes "handle_analysis now tasks = Inr res"
  obtains c where "analyze_cascading_risks now tasks
                     = Inr (blocked_task_ids res, bottleneck_task_ids res)"
    and "analyze_tasks now (blocked_task_ids res) (bottleneck_task_ids res) tasks (\<lambda>_. 0, [])
           = Inr (c, analyzed res)"
  using assms by (auto simp: handle_analysis_def split: sum.splits prod.splits)

lemma handle_entries:
  assumes "handle_analysis now tasks = Inr res"
  shows "list_all2 (\<lambda>t a. \<exists>r n. task_risk now t = Inr (r, n)
                    \<and> a_id a = get (task_id t)
                    \<and> a_risk a = override_risk (blocked_task_ids res) (get (task_id t)) r
                    \<and> a_days_remaining a = n
                    \<and> a_is_bottleneck a = (get (task_id t) \<in> set (bottleneck_task_ids res)))
           tasks (analyzed res)"
proof -
  from assms obtain c where
    "analyze_tasks now (blocked_task_ids res) (bottleneck_task_ids res) tasks (\<lambda>_. 0, [])
           = Inr (c, analyzed res)"
    by (rule handle_parts)
  from analyze_tasks_entries[OF this] show ?thesis by simp
qed

text \<open>
  C4. When the analysis returns, there is one analysed entry per task, and the tier of the
  entry is the task's intrinsic tier, except that it is BLOCKED when the task's id is in
  the blocked set and the intrinsic tier is neither CRITICAL nor COMPLETED. So an
  intrinsically CRITICAL or COMPLETED task keeps its tier even with its id in the set.
\<close>

theorem effective_tier:
  assumes "handle_analysis now tasks = Inr res" and "i < length tasks"
  shows "length (analyzed res) = length tasks
         \<and> (\<exists>r n. task_risk now (tasks ! i) = Inr (r, n)
               \<and> a_risk (analyzed res ! i)
                   = (if get (task_id (tasks ! i)) \<in> set (blocked_task_ids res)
                         \<and> r \<noteq> CRITICAL \<and> r \<noteq> COMPLETED
                      then BLOCKED else r))"
proof -
  note h = handle_entries[OF assms(1)]
  have len: "length (analyzed res) = length tasks"
    using h by (simp add: list_all2_lengthD)
  from list_all2_nthD[OF h assms(2)] len show ?thesis
    by (auto simp: override_risk_def)
qed

lemma handle_total:
  assumes "\<forall>t \<in> set ts. plain_task t"
  shows "\<exists>res. handle_analysis now ts = Inr res"
proof -
  from analyze_total[OF assms] obtain b bn where
    a: "analyze_cascading_risks now ts = Inr (b, bn)" by blast
  from analyze_tasks_total[OF assms] obtain c out where
    "analyze_tasks now b bn ts (\<lambda>_. 0, []) = Inr (c, out)" by blast
  with a show ?thesis by (simp add: handle_analysis_def)
qed

theorem effective_tier_witness:
  "\<not> isl (handle_analysis sample_now fan_out_tasks)
   \<and> (1::nat) < length fan_out_tasks
   \<and> task_risk sample_now (fan_out_tasks ! 1) = Inr (LOW, 26862)
   \<and> a_risk (analyzed (projr (handle_analysis sample_now fan_out_tasks)) ! 1) = BLOCKED"
proof -
  have p: "\<forall>t \<in> set fan_out_tasks. plain_task t" by code_simp
  from handle_total[OF p] obtain res where
    h: "handle_analysis sample_now fan_out_tasks = Inr res" by blast
  have l: "(1::nat) < length fan_out_tasks" by code_simp
  have r: "task_risk sample_now (fan_out_tasks ! 1) = Inr (LOW, 26862)" by code_simp
  have a: "analyze_cascading_risks sample_now fan_out_tasks
             = Inr ([PStr ''B'', PStr ''C''], [PStr ''A''])"
    by code_simp
  have i: "get (task_id (fan_out_tasks ! 1)) = PStr ''B''" by code_simp
  from h a have b: "blocked_task_ids res = [PStr ''B'', PStr ''C'']"
    by (auto simp: handle_analysis_def split: sum.splits prod.splits)
  from effective_tier[OF h l] r i b have "a_risk (analyzed res ! 1) = BLOCKED"
    by auto
  with h l r show ?thesis by simp
qed

subsection \<open>Bottlenecks and repeated declarations\<close>

lemma count_list_replicate:
  "count_list (replicate n x) y = (if x = y then n else 0)"
  by (induction n) auto

lemma count_list_dependents_other:
  "\<forall>t \<in> set ts. get (task_id t) \<noteq> i \<Longrightarrow> count_list (dependents_of ts k) i = 0"
  by (induction ts) (auto simp: dependents_of_def count_list_replicate)

lemma count_list_dependents:
  "distinct (map (\<lambda>t. get (task_id t)) ts) \<Longrightarrow> t \<in> set ts \<Longrightarrow>
     count_list (dependents_of ts k) (get (task_id t)) = count_list (task_deps t) k"
proof (induction ts)
  case Nil
  then show ?case by simp
next
  case (Cons a ts)
  have split: "dependents_of (a # ts) k
                 = replicate (count_list (task_deps a) k) (get (task_id a)) @ dependents_of ts k"
    by (simp add: dependents_of_def)
  show ?case
  proof (cases "t = a")
    case True
    have "\<forall>t' \<in> set ts. get (task_id t') \<noteq> get (task_id a)"
      using Cons.prems(1) by (fastforce simp: image_iff)
    from count_list_dependents_other[OF this, of k] True show ?thesis
      by (simp add: split count_list_replicate)
  next
    case False
    then have m: "t \<in> set ts" using Cons.prems(2) by simp
    then have "get (task_id a) \<noteq> get (task_id t)"
      using Cons.prems(1) by (fastforce simp: image_iff)
    with Cons.IH m Cons.prems(1) show ?thesis
      by (simp add: split count_list_replicate)
  qed
qed

lemma bottleneck_iff_list_length:
  assumes "analyze_cascading_risks now tasks = Inr (blocked, bns)"
    and "build_dependency_graph now tasks = Inr (g, s, r)"
  shows "k \<in> set bns \<longleftrightarrow> (\<exists>ds. dict_get g k = Some ds \<and> length ds > 1)"
proof -
  from assms have "bns = identify_bottlenecks g"
    by (auto simp: analyze_cascading_risks_def split: sum.splits prod.splits)
  then show ?thesis
    using set_identify_bottlenecks[OF build_lookup(2)[OF assms(2)], of k]
    by (simp add: dict_get_def)
qed

lemma length_dependents_of:
  "length (dependents_of ts k) = sum_list (map (\<lambda>t. count_list (task_deps t) k) ts)"
  by (induction ts) (auto simp: dependents_of_def)

lemma count_list_distinct:
  "distinct xs \<Longrightarrow> count_list xs x = (if x \<in> set xs then 1 else 0)"
  by (induction xs) auto

lemma length_dependents_of_distinct:
  "\<forall>t \<in> set ts. distinct (task_deps t) \<Longrightarrow>
     length (dependents_of ts k) = length (filter (\<lambda>t. k \<in> set (task_deps t)) ts)"
  by (induction ts) (auto simp: dependents_of_def count_list_distinct)

lemma bottleneck_iff_declarations:
  assumes "analyze_cascading_risks now tasks = Inr (blocked, bns)"
  shows "k \<in> set bns \<longleftrightarrow>
           k \<in> set (map (\<lambda>t. get (task_id t)) tasks)
           \<and> 1 < sum_list (map (\<lambda>t. count_list (task_deps t) k) tasks)"
proof -
  from assms obtain g s r where
    b: "build_dependency_graph now tasks = Inr (g, s, r)" and
    bn: "bns = identify_bottlenecks g"
    by (rule analyze_parts)
  show ?thesis
    using set_identify_bottlenecks[OF build_lookup(2)[OF b], of k]
          build_lookup(1)[OF b, of k] bn
    by (auto simp: length_dependents_of)
qed

lemma bottleneck_iff_task_count:
  assumes "analyze_cascading_risks now tasks = Inr (blocked, bns)"
    and "\<forall>t \<in> set tasks. distinct (task_deps t)"
  shows "k \<in> set bns \<longleftrightarrow>
           k \<in> set (map (\<lambda>t. get (task_id t)) tasks)
           \<and> 1 < length (filter (\<lambda>t. k \<in> set (task_deps t)) tasks)"
  using bottleneck_iff_declarations[OF assms(1), of k]
        length_dependents_of_distinct[OF assms(2), of k]
  by (simp add: length_dependents_of)

text \<open>
  C8. The bottleneck list holds the ids whose dependent list has more than one entry,
  and that list has one entry per declaration. When no task names a predecessor twice
  this is the count of tasks that depend on the id (\<open>bottleneck_iff_task_count\<close>). With
  the declaration \<open>A, A\<close> it is not: exactly one task depends on \<open>A\<close>, and \<open>A\<close> is listed
  as a bottleneck.
\<close>

theorem bottleneck_with_one_dependent:
  "analyze_cascading_risks sample_now declared_twice_tasks = Inr ([], [PStr ''A''])
   \<and> filter (\<lambda>t. PStr ''A'' \<in> set (task_deps t)) declared_twice_tasks
       = [todo_task ''B'' ''2099-01-01'' (Some (PStr ''A, A''))]"
  by code_simp

text \<open>
  C10. With unique task ids, the dependent list of an existing predecessor \<open>k\<close> holds the
  id of a task \<open>t\<close> as many times as \<open>t\<close> names \<open>k\<close> in its \<open>depends_on\<close>. So a task
  that names \<open>k\<close> twice gives \<open>k\<close> a list of length at least two and makes \<open>k\<close> a
  bottleneck, even when it is the only dependent.
\<close>

theorem dependents_once_per_declaration:
  assumes "analyze_cascading_risks now tasks = Inr (blocked, bns)"
    and "build_dependency_graph now tasks = Inr (g, s, r)"
    and "distinct (map (\<lambda>t. get (task_id t)) tasks)"
    and "t \<in> set tasks"
    and "k \<in> set (map (\<lambda>t. get (task_id t)) tasks)"
  shows "\<exists>ds. dict_get g k = Some ds
           \<and> count_list ds (get (task_id t)) = count_list (task_deps t) k
           \<and> (2 \<le> count_list (task_deps t) k \<longrightarrow> 2 \<le> length ds \<and> k \<in> set bns)"
proof -
  let ?ds = "dependents_of tasks k"
  have g: "dict_get g k = Some ?ds"
    using build_lookup(1)[OF assms(2), of k] assms(5) by (simp add: dict_get_def)
  have c: "count_list ?ds (get (task_id t)) = count_list (task_deps t) k"
    using count_list_dependents[OF assms(3,4)] .
  have bn: "bns = identify_bottlenecks g"
    using assms(1,2)
    by (auto simp: analyze_cascading_risks_def split: sum.splits prod.splits)
  have "2 \<le> length ?ds \<and> k \<in> set bns" if "2 \<le> count_list (task_deps t) k"
  proof -
    have "count_list ?ds (get (task_id t)) \<le> length ?ds" by (rule count_le_length)
    with c that have l: "2 \<le> length ?ds" by simp
    then have "k \<in> set (identify_bottlenecks g)"
      using set_identify_bottlenecks[OF build_lookup(2)[OF assms(2)], of k] g
      by (simp add: dict_get_def)
    with l bn show ?thesis by simp
  qed
  with g c show ?thesis by blast
qed

theorem dependents_once_per_declaration_witness:
  "analyze_cascading_risks sample_now declared_twice_tasks = Inr ([], [PStr ''A''])
   \<and> build_dependency_graph sample_now declared_twice_tasks
     = Inr ([(PStr ''A'', [PStr ''B'', PStr ''B'']), (PStr ''B'', [])],
            [(PStr ''A'', PStr ''todo''), (PStr ''B'', PStr ''todo'')],
            [(PStr ''A'', LOW), (PStr ''B'', LOW)])
   \<and> distinct (map (\<lambda>t. get (task_id t)) declared_twice_tasks)
   \<and> todo_task ''B'' ''2099-01-01'' (Some (PStr ''A, A'')) \<in> set declared_twice_tasks
   \<and> PStr ''A'' \<in> set (map (\<lambda>t. get (task_id t)) declared_twice_tasks)
   \<and> count_list (task_deps (todo_task ''B'' ''2099-01-01'' (Some (PStr ''A, A'')))) (PStr ''A'') = 2
   \<and> (\<exists>ds. dict_get [(PStr ''A'', [PStr ''B'', PStr ''B'']), (PStr ''B'', [])] (PStr ''A'')
               = Some ds
             \<and> count_list ds (PStr ''B'') = 2 \<and> 2 \<le> length ds)
   \<and> PStr ''A'' \<in> set [PStr ''A'']"
proof -
  let ?t = "todo_task ''B'' ''2099-01-01'' (Some (PStr ''A, A''))"
  have a: "analyze_cascading_risks sample_now declared_twice_tasks = Inr ([], [PStr ''A''])"
    by code_simp
  have b: "build_dependency_graph sample_now declared_twice_tasks
     = Inr ([(PStr ''A'', [PStr ''B'', PStr ''B'']), (PStr ''B'', [])],
            [(PStr ''A'', PStr ''todo''), (PStr ''B'', PStr ''todo'')],
            [(PStr ''A'', LOW), (PStr ''B'', LOW)])"
    by code_simp
  have d: "distinct (map (\<lambda>t. get (task_id t)) declared_twice_tasks)" by code_simp
  have m: "?t \<in> set declared_twice_tasks" by (simp add: declared_twice_tasks_def)
  have k: "PStr ''A'' \<in> set (map (\<lambda>t. get (task_id t)) declared_twice_tasks)" by code_simp
  have c: "count_list (task_deps ?t) (PStr ''A'') = 2" by code_simp
  have i: "get (task_id ?t) = PStr ''B''" by code_simp
  show ?thesis
    using dependents_once_per_declaration[OF a b d m k] a b d m k c i
    by auto
qed

subsection \<open>List-valued \<open>depends_on\<close>\<close>

text \<open>
  C2. The comma-separated string \<open>X, Y\<close> gives the edges from \<open>X\<close> and from \<open>Y\<close> to
  the dependent. The list \<open>["X", "Y"]\<close> is not split but wrapped as one predecessor,
  and the membership test on that list raises TypeError: no graph is produced.
\<close>

theorem list_depends_on_raises:
  "build_dependency_graph sample_now list_deps_tasks = Inl TypeError
   \<and> analyze_cascading_risks sample_now list_deps_tasks = Inl TypeError
   \<and> build_dependency_graph sample_now string_deps_tasks
     = Inr ([(PStr ''X'', [PStr ''Z'']), (PStr ''Y'', [PStr ''Z'']), (PStr ''Z'', [])],
            [(PStr ''X'', PStr ''todo''), (PStr ''Y'', PStr ''todo''),
             (PStr ''Z'', PStr ''todo'')],
            [(PStr ''X'', LOW), (PStr ''Y'', LOW), (PStr ''Z'', LOW)])"
  by code_simp

subsection \<open>Cycles\<close>

lemma parse_deps_A: "parse_deps (PStr ''A'') = [PStr ''A'']"
  by code_simp

lemma parse_deps_B: "parse_deps (PStr ''B'') = [PStr ''B'']"
  by code_simp

lemma cyclic_pair:
  assumes b: "build_dependency_graph now [ta, tb] = Inr (g, s, r)"
    and a: "analyze_cascading_risks now [ta, tb] = Inr (bl, bn)"
    and ida: "get (task_id ta) = PStr ''A''" and da: "get (depends_on ta) = PStr ''B''"
    and idb: "get (task_id tb) = PStr ''B''" and db: "get (depends_on tb) = PStr ''A''"
    and safe: "\<not> at_risk now ta" "\<not> at_risk now tb"
  shows "dict_get g (PStr ''A'') = Some [PStr ''B'']
         \<and> dict_get g (PStr ''B'') = Some [PStr ''A''] \<and> bl = []"
proof -
  have ta: "task_deps ta = [PStr ''B'']" and tb: "task_deps tb = [PStr ''A'']"
    by (simp_all add: task_deps_def da db parse_deps_A parse_deps_B)
  have gA: "dict_get g (PStr ''A'') = Some [PStr ''B'']"
    using build_lookup(1)[OF b, of "PStr ''A''"]
    by (simp add: dict_get_def dependents_of_def ta tb ida idb)
  have gB: "dict_get g (PStr ''B'') = Some [PStr ''A'']"
    using build_lookup(1)[OF b, of "PStr ''B''"]
    by (simp add: dict_get_def dependents_of_def ta tb ida idb)
  have d: "distinct (map (\<lambda>t. get (task_id t)) [ta, tb])"
    by (simp add: ida idb)
  from a b have ib: "identify_blocked [ta, tb] r [] = Inr bl"
    by (auto simp: analyze_cascading_risks_def split: sum.splits prod.splits)
  have nr: "\<not> risky r (get (task_id t))" if "t \<in> set [ta, tb]" for t
  proof -
    from build_risk_map(2)[OF b d that] obtain rk n where
      "task_risk now t = Inr (rk, n)" "map_of r (get (task_id t)) = Some rk" by blast
    moreover have "\<not> at_risk now t" using that safe by auto
    ultimately show ?thesis by (auto simp: risky_def at_risk_def)
  qed
  have "\<not> risky r (PStr ''A'')" "\<not> risky r (PStr ''B'')"
    using nr[of ta] nr[of tb] by (simp_all add: ida idb)
  then have "set bl = {}"
    using identify_blocked_set[OF ib] by (auto simp: ta tb)
  then show ?thesis using gA gB by simp
qed

lemma day_ahead_not_at_risk: "day_ahead now t \<Longrightarrow> \<not> at_risk now t"
  by (auto simp: day_ahead_def at_risk_def task_risk_def calculate_risk_level_def Let_def
           split: pyval.splits option.splits if_splits)

lemma sub_days_future:
  assumes "valid_time now" "hour d = 0" "minute d = 0" "second d = 0" "microsecond d = 0"
  shows "toordinal d - toordinal now - 1 \<le> sub_days d now"
proof -
  let ?x = "day_seconds now * 1000000 + microsecond now"
  have "?x < 86400000000"
    using assms(1) by (simp add: valid_time_def day_seconds_def)
  then have "- 86400000000 \<le> - ?x" by simp
  then have "(- 86400000000) div 86400000000 \<le> (- ?x) div 86400000000"
    by (rule zdiv_mono1) simp
  then have "- 1 \<le> (- ?x) div 86400000000" by simp
  then show ?thesis
    using assms(2-5) by (simp add: sub_days_def day_seconds_def)
qed

lemma two_days_later_day_ahead:
  assumes "valid_time now" and "task_deadline t = Some (PStr dl)" and "strptime dl = Some d"
    and "toordinal now + 2 \<le> toordinal d"
  shows "day_ahead now t"
  using sub_days_future[OF assms(1), of d] strptime_midnight[OF assms(3)] assms(2-4)
  by (simp add: day_ahead_def get_default_def)

text \<open>
  C9, as stated, fails: with both deadlines on the day after the clock's date, hence in
  the future, both tasks are HIGH and each blocks the other.
\<close>

theorem tomorrow_cycle_counterexample:
  "strptime ''2025-06-16''
     = Some \<lparr>year = 2025, month = 6, day = 16, hour = 0, minute = 0, second = 0,
              microsecond = 0\<rparr>
   \<and> toordinal sample_now
       < toordinal \<lparr>year = 2025, month = 6, day = 16, hour = 0, minute = 0, second = 0,
                    microsecond = 0\<rparr>
   \<and> \<not> isl (analyze_cascading_risks sample_now cyclic_tomorrow_tasks)
   \<and> set (fst (projr (analyze_cascading_risks sample_now cyclic_tomorrow_tasks)))
       = {PStr ''A'', PStr ''B''}"
proof -
  have a: "analyze_cascading_risks sample_now cyclic_tomorrow_tasks
             = Inr ([PStr ''A'', PStr ''B''], [])"
    by code_simp
  have b: "strptime ''2025-06-16''
     = Some \<lparr>year = 2025, month = 6, day = 16, hour = 0, minute = 0, second = 0,
              microsecond = 0\<rparr>"
    by code_simp
  have c: "toordinal sample_now
       < toordinal \<lparr>year = 2025, month = 6, day = 16, hour = 0, minute = 0, second = 0,
                    microsecond = 0\<rparr>"
    by code_simp
  show ?thesis using a b c by simp
qed

text \<open>
  C9, amended. Every pass is a structural recursion over the task list or over one
  task's declared predecessors, so it ends whatever the edges are; on plain tasks, with
  self-dependencies and cycles among them, graph construction and the blocked and
  bottleneck passes return a result. For the pair \<open>A\<close> depending on \<open>B\<close> and \<open>B\<close> on \<open>A\<close>,
  both with deadlines at least one whole day ahead of the clock, each is the other's
  only dependent and the blocked set is empty.
\<close>

theorem cyclic_dependencies_return:
  assumes "\<forall>t \<in> set tasks. plain_task t"
  shows "\<exists>g s r bl bn.
           build_dependency_graph now tasks = Inr (g, s, r)
           \<and> analyze_cascading_risks now tasks = Inr (bl, bn)
           \<and> (tasks = [ta, tb]
                \<and> get (task_id ta) = PStr ''A'' \<and> get (depends_on ta) = PStr ''B''
                \<and> get (task_id tb) = PStr ''B'' \<and> get (depends_on tb) = PStr ''A''
                \<and> day_ahead now ta \<and> day_ahead now tb
              \<longrightarrow> dict_get g (PStr ''A'') = Some [PStr ''B'']
                  \<and> dict_get g (PStr ''B'') = Some [PStr ''A'']
                  \<and> bl = [])"
proof -
  from build_total[OF assms] obtain g s r where
    b: "build_dependency_graph now tasks = Inr (g, s, r)" by blast
  from analyze_total[OF assms] obtain bl bn where
    a: "analyze_cascading_risks now tasks = Inr (bl, bn)" by blast
  show ?thesis
    using a b cyclic_pair[of now ta tb g s r bl bn] day_ahead_not_at_risk[of now]
    by blast
qed

theorem cyclic_dependencies_return_witness:
  "cyclic_tasks = [todo_task ''A'' ''2025-06-17'' (Some (PStr ''B'')),
                   todo_task ''B'' ''2025-06-17'' (Some (PStr ''A''))]
   \<and> day_ahead sample_now (todo_task ''A'' ''2025-06-17'' (Some (PStr ''B'')))
   \<and> day_ahead sample_now (todo_task ''B'' ''2025-06-17'' (Some (PStr ''A'')))
   \<and> \<not> isl (build_dependency_graph sample_now cyclic_tasks)
   \<and> \<not> isl (analyze_cascading_risks sample_now cyclic_tasks)
   \<and> dict_get (fst (projr (build_dependency_graph sample_now cyclic_tasks))) (PStr ''A'')
       = Some [PStr ''B'']
   \<and> dict_get (fst (projr (build_dependency_graph sample_now cyclic_tasks))) (PStr ''B'')
       = Some [PStr ''A'']
   \<and> fst (projr (analyze_cascading_risks sample_now cyclic_tasks)) = []"
proof -
  let ?ta = "todo_task ''A'' ''2025-06-17'' (Some (PStr ''B''))"
  let ?tb = "todo_task ''B'' ''2025-06-17'' (Some (PStr ''A''))"
  have p: "\<forall>t \<in> set cyclic_tasks. plain_task t" by code_simp
  have c: "cyclic_tasks = [?ta, ?tb]" by (simp add: cyclic_tasks_def)
  have sa: "day_ahead sample_now ?ta" by code_simp
  have sb: "day_ahead sample_now ?tb" by code_simp
  have i: "get (task_id ?ta) = PStr ''A''" "get (depends_on ?ta) = PStr ''B''"
          "get (task_id ?tb) = PStr ''B''" "get (depends_on ?tb) = PStr ''A''"
    by (simp_all add: todo_task_def get_def)
  from cyclic_dependencies_return[OF p, of sample_now ?ta ?tb] c sa sb i
  obtain g s r bl bn where
    "build_dependency_graph sample_now cyclic_tasks = Inr (g, s, r)"
    "analyze_cascading_risks sample_now cyclic_tasks = Inr (bl, bn)"
    "dict_get g (PStr ''A'') = Some [PStr ''B'']"
    "dict_get g (PStr ''B'') = Some [PStr ''A'']" "bl = []"
    by auto
  with c sa sb show ?thesis by simp
qed

subsection \<open>Malformed tasks\<close>

lemma parse_deps_not_None: "truthy dep \<Longrightarrow> count_list (parse_deps dep) PNone = 0"
proof (cases dep)
  case (PStr s)
  have "count_list (map (\<lambda>d. PStr (strip d)) xs) PNone = 0" for xs
    by (induction xs) auto
  with PStr show ?thesis by (simp add: parse_deps_def)
qed (auto simp: parse_deps_def)

lemma dependents_of_None: "dependents_of ts PNone = []"
  by (induction ts) (auto simp: dependents_of_def task_deps_def parse_deps_not_None)

lemma absent_fields_unknown:
  "task_status t = None \<Longrightarrow> task_deadline t = None \<Longrightarrow> task_risk now t = Inr (UNKNOWN, 0)"
  by (simp add: task_risk_def get_default_def calculate_risk_level_def lower_def
                strptime_def regex_matches_def)

text \<open>
  C3, as stated, fails: a task whose status is null makes the analysis raise
  AttributeError, since only ValueError is caught.
\<close>

theorem null_status_counterexample:
  "handle_analysis sample_now [null_status_task] = Inl AttributeError"
proof -
  have "analyze_cascading_risks sample_now [null_status_task] = Inl AttributeError"
    by code_simp
  then show ?thesis by (simp add: handle_analysis_def)
qed

lemma missing_deadline_unknown:
  assumes "plain_task t" and "task_deadline t = None" and "\<not> done_status t"
  shows "task_risk now t = Inr (UNKNOWN, 0)"
proof -
  from assms(1) obtain st where st: "get_default (task_status t) (PStr []) = PStr st"
    using is_strD by (auto simp: plain_task_def)
  have e: "strptime [] = None" by (simp add: strptime_def regex_matches_def)
  show ?thesis
    using assms(2,3) st e
    by (simp add: task_risk_def done_status_def calculate_risk_level_def get_default_def)
qed

lemma not_declaring_not_blocked:
  assumes "analyze_cascading_risks now tasks = Inr (blocked, bns)"
    and "distinct (map (\<lambda>t. get (task_id t)) tasks)"
    and "t \<in> set tasks" and "task_deps t = []"
  shows "get (task_id t) \<notin> set blocked"
proof -
  from assms(1) obtain g s r where
    ib: "identify_blocked tasks r [] = Inr blocked"
    by (rule analyze_parts)
  have "t' = t" if "t' \<in> set tasks" "get (task_id t') = get (task_id t)" for t'
    using assms(2,3) that by (meson distinct_map inj_onD)
  then show ?thesis
    using identify_blocked_set[OF ib] assms(4) by auto
qed

lemma not_declaring_no_edge:
  assumes "build_dependency_graph now tasks = Inr (g, s, r)"
    and "distinct (map (\<lambda>t. get (task_id t)) tasks)"
    and "t \<in> set tasks" and "task_deps t = []"
    and "dict_get g k = Some ds"
  shows "get (task_id t) \<notin> set ds"
proof -
  have "ds = dependents_of tasks k"
    using build_lookup(1)[OF assms(1), of k] assms(5)
    by (auto simp: dict_get_def split: if_splits)
  moreover have "count_list (dependents_of tasks k) (get (task_id t)) = 0"
    using count_list_dependents[OF assms(2,3), of k] assms(4) by simp
  ultimately show ?thesis by (simp add: count_list_0_iff)
qed

text \<open>
  C3, amended. On plain tasks the analysis raises nothing and returns a complete result
  with one entry per task. A task with missing fields degrades to UNKNOWN risk and zero
  fan-out: without a deadline, and with a status that is absent or not a done synonym,
  it is classified \<open>(UNKNOWN, 0)\<close> and its entry is UNKNOWN, or BLOCKED when its id is in
  the blocked set; without \<open>task_id\<close> its dependent list is empty and it is no
  bottleneck; without \<open>depends_on\<close> it declares nothing and, with unique ids, is neither
  blocked nor in any dependent list.
\<close>

theorem plain_tasks_analysis_returns:
  assumes "\<forall>t \<in> set tasks. plain_task t"
  shows "\<exists>res g s r.
           handle_analysis now tasks = Inr res
           \<and> build_dependency_graph now tasks = Inr (g, s, r)
           \<and> length (analyzed res) = length tasks
           \<and> (\<forall>i < length tasks.
                 (task_deadline (tasks ! i) = None \<and> \<not> done_status (tasks ! i) \<longrightarrow>
                    task_risk now (tasks ! i) = Inr (UNKNOWN, 0)
                    \<and> a_days_remaining (analyzed res ! i) = 0
                    \<and> a_risk (analyzed res ! i)
                        = (if get (task_id (tasks ! i)) \<in> set (blocked_task_ids res)
                           then BLOCKED else UNKNOWN))
                 \<and> (task_id (tasks ! i) = None \<longrightarrow>
                      dict_get g (get (task_id (tasks ! i))) = Some []
                      \<and> \<not> a_is_bottleneck (analyzed res ! i))
                 \<and> (depends_on (tasks ! i) = None \<longrightarrow>
                      task_deps (tasks ! i) = []
                      \<and> (distinct (map (\<lambda>t. get (task_id t)) tasks) \<longrightarrow>
                           get (task_id (tasks ! i)) \<notin> set (blocked_task_ids res)
                           \<and> (\<forall>k ds. dict_get g k = Some ds \<longrightarrow>
                                 get (task_id (tasks ! i)) \<notin> set ds))))"
proof -
  from handle_total[OF assms] obtain res where
    h: "handle_analysis now tasks = Inr res" by blast
  note e = handle_entries[OF h]
  have len: "length (analyzed res) = length tasks"
    using e by (simp add: list_all2_lengthD)
  from h obtain c where
    a: "analyze_cascading_risks now tasks = Inr (blocked_task_ids res, bottleneck_task_ids res)"
    by (rule handle_parts)
  then obtain g s r where
    b: "build_dependency_graph now tasks = Inr (g, s, r)" and
    bn: "bottleneck_task_ids res = identify_bottlenecks g"
    by (rule analyze_parts)
  have nb: "PNone \<notin> set (bottleneck_task_ids res)"
    using set_identify_bottlenecks[OF build_lookup(2)[OF b], of PNone] bn
          build_lookup(1)[OF b, of PNone]
    by (auto simp: dependents_of_None split: if_splits)
  have p1: "task_risk now (tasks ! i) = Inr (UNKNOWN, 0)
            \<and> a_days_remaining (analyzed res ! i) = 0
            \<and> a_risk (analyzed res ! i)
                = (if get (task_id (tasks ! i)) \<in> set (blocked_task_ids res)
                   then BLOCKED else UNKNOWN)"
    if "i < length tasks" "task_deadline (tasks ! i) = None" "\<not> done_status (tasks ! i)" for i
  proof -
    have "plain_task (tasks ! i)" using assms that(1) by simp
    from missing_deadline_unknown[OF this that(2,3), of now]
    show ?thesis using list_all2_nthD[OF e that(1)] by (auto simp: override_risk_def)
  qed
  have p2: "dict_get g (get (task_id (tasks ! i))) = Some []
            \<and> \<not> a_is_bottleneck (analyzed res ! i)"
    if "i < length tasks" "task_id (tasks ! i) = None" for i
  proof -
    have n: "get (task_id (tasks ! i)) = PNone" using that(2) by (simp add: get_def)
    then have "PNone \<in> set (map (\<lambda>t. get (task_id t)) tasks)"
      using that(1) by (metis (mono_tags, lifting) length_map nth_map nth_mem)
    then have "dict_get g PNone = Some []"
      using build_lookup(1)[OF b, of PNone] by (simp add: dict_get_def dependents_of_None)
    then show ?thesis using n nb list_all2_nthD[OF e that(1)] by auto
  qed
  have p3: "task_deps (tasks ! i) = []
            \<and> (distinct (map (\<lambda>t. get (task_id t)) tasks) \<longrightarrow>
                 get (task_id (tasks ! i)) \<notin> set (blocked_task_ids res)
                 \<and> (\<forall>k ds. dict_get g k = Some ds \<longrightarrow> get (task_id (tasks ! i)) \<notin> set ds))"
    if "i < length tasks" "depends_on (tasks ! i) = None" for i
  proof -
    have d: "task_deps (tasks ! i) = []" using that(2) by (simp add: task_deps_def get_def)
    have m: "tasks ! i \<in> set tasks" using that(1) by simp
    show ?thesis
      using d not_declaring_not_blocked[OF a _ m d] not_declaring_no_edge[OF b _ m d]
      by blast
  qed
  show ?thesis
    using h b len p1 p2 p3 by blast
qed

theorem plain_tasks_analysis_returns_witness:
  "task_deadline ([empty_task, todo_task ''A'' ''2020-01-01'' None,
                   todo_task ''B'' ''2099-01-01'' (Some (PStr ''A''))] ! 0) = None
   \<and> \<not> done_status ([empty_task, todo_task ''A'' ''2020-01-01'' None,
                   todo_task ''B'' ''2099-01-01'' (Some (PStr ''A''))] ! 0)
   \<and> task_id ([empty_task, todo_task ''A'' ''2020-01-01'' None,
                   todo_task ''B'' ''2099-01-01'' (Some (PStr ''A''))] ! 0) = None
   \<and> depends_on ([empty_task, todo_task ''A'' ''2020-01-01'' None,
                   todo_task ''B'' ''2099-01-01'' (Some (PStr ''A''))] ! 0) = None
   \<and> distinct (map (\<lambda>t. get (task_id t))
                 [empty_task, todo_task ''A'' ''2020-01-01'' None,
                  todo_task ''B'' ''2099-01-01'' (Some (PStr ''A''))])
   \<and> \<not> isl (handle_analysis sample_now
                 [empty_task, todo_task ''A'' ''2020-01-01'' None,
                  todo_task ''B'' ''2099-01-01'' (Some (PStr ''A''))])
   \<and> \<not> isl (build_dependency_graph sample_now
                 [empty_task, todo_task ''A'' ''2020-01-01'' None,
                  todo_task ''B'' ''2099-01-01'' (Some (PStr ''A''))])
   \<and> a_risk (analyzed (projr (handle_analysis sample_now
                 [empty_task, todo_task ''A'' ''2020-01-01'' None,
                  todo_task ''B'' ''2099-01-01'' (Some (PStr ''A''))])) ! 0) = UNKNOWN
   \<and> a_days_remaining (analyzed (projr (handle_analysis sample_now
                 [empty_task, todo_task ''A'' ''2020-01-01'' None,
                  todo_task ''B'' ''2099-01-01'' (Some (PStr ''A''))])) ! 0) = 0
   \<and> \<not> a_is_bottleneck (analyzed (projr (handle_analysis sample_now
                 [empty_task, todo_task ''A'' ''2020-01-01'' None,
                  todo_task ''B'' ''2099-01-01'' (Some (PStr ''A''))])) ! 0)
   \<and> dict_get (fst (projr (build_dependency_graph sample_now
                 [empty_task, todo_task ''A'' ''2020-01-01'' None,
                  todo_task ''B'' ''2099-01-01'' (Some (PStr ''A''))]))) PNone = Some []"
proof -
  let ?ts = "[empty_task, todo_task ''A'' ''2020-01-01'' None,
              todo_task ''B'' ''2099-01-01'' (Some (PStr ''A''))]"
  have p: "\<forall>t \<in> set ?ts. plain_task t" by code_simp
  have f: "task_deadline (?ts ! 0) = None" "task_id (?ts ! 0) = None"
    "depends_on (?ts ! 0) = None"
    by (simp_all add: empty_task_def)
  have nd: "\<not> done_status (?ts ! 0)" by code_simp
  have d: "distinct (map (\<lambda>t. get (task_id t)) ?ts)" by code_simp
  have i: "get (task_id (?ts ! 0)) = PNone" by (simp add: empty_task_def get_def)
  have z: "(0::nat) < length ?ts" by simp
  from plain_tasks_analysis_returns[OF p, of sample_now] obtain res g s r where
    h: "handle_analysis sample_now ?ts = Inr res" and
    b: "build_dependency_graph sample_now ?ts = Inr (g, s, r)" and
    e: "\<forall>i < length ?ts.
          (task_deadline (?ts ! i) = None \<and> \<not> done_status (?ts ! i) \<longrightarrow>
             task_risk sample_now (?ts ! i) = Inr (UNKNOWN, 0)
             \<and> a_days_remaining (analyzed res ! i) = 0
             \<and> a_risk (analyzed res ! i)
                 = (if get (task_id (?ts ! i)) \<in> set (blocked_task_ids res)
                    then BLOCKED else UNKNOWN))
          \<and> (task_id (?ts ! i) = None \<longrightarrow>
               dict_get g (get (task_id (?ts ! i))) = Some []
               \<and> \<not> a_is_bottleneck (analyzed res ! i))
          \<and> (depends_on (?ts ! i) = None \<longrightarrow>
               task_deps (?ts ! i) = []
               \<and> (distinct (map (\<lambda>t. get (task_id t)) ?ts) \<longrightarrow>
                    get (task_id (?ts ! i)) \<notin> set (blocked_task_ids res)
                    \<and> (\<forall>k ds. dict_get g k = Some ds \<longrightarrow>
                          get (task_id (?ts ! i)) \<notin> set ds)))"
    by blast
  from e[rule_format, OF z] f nd d i
  have "a_days_remaining (analyzed res ! 0) = 0 \<and> a_risk (analyzed res ! 0) = UNKNOWN
        \<and> \<not> a_is_bottleneck (analyzed res ! 0) \<and> dict_get g PNone = Some []"
    by simp
  with h b f nd d show ?thesis by simp
qed
end
